theory Spec2Isabelle
  imports Main "HOL-Library.Sublist"
begin

section \<open>Data model\<close>

text \<open>
  The orchestrator \<open>PySpringApplication\<close> (py_spring_application.py) drives a set of
  collaborators that are not part of the orchestrator itself: the application context
  (the container), the entity providers, the class scanner, the type checking service,
  the component and controller instances, the logger and the HTTP server. The embedding
  records every call the orchestrator makes on a collaborator as an event of a trace, in
  the order the calls are made, and takes the collaborators' answers from an environment:
  what a call returns, and whether it raises. A Python exception is a value of type
  \<open>exn\<close>; a method that returns normally yields \<open>None\<close> in the second component
  of its result, one that raises yields \<open>Some e\<close>.

  Every call of a collaborator returns or raises: \<open>uvicorn.run\<close> blocks until the
  server is shut down, and the runs described are those in which it comes back. The
  \<open>logger.debug\<close> calls are left out, and \<open>logger.warning\<close> does not raise. The
  constructor argument \<open>entity_providers\<close> is a list (its default), which the three
  loops over it traverse alike. Classes, providers and instances are identified by
  numbers.
\<close>

type_synonym cls = nat
type_synonym provider = nat
type_synonym component = nat
type_synonym controller = nat
type_synonym exn = string

text \<open>The keys of \<open>classes_with_handlers\<close>, in insertion order.\<close>

datatype app_entity = Component | RestController | BeanCollection | Properties

text \<open>
  Modelled from the spec: \<open>ComponentLifeCycle\<close> is declared in component.py, which is
  not among the sources; the orchestrator refers to its members \<open>Init\<close> and
  \<open>Destruction\<close>, the two lifecycle operations of the spec.
\<close>

datatype ComponentLifeCycle = Init | Destruction

text \<open>
  Modelled from the spec: \<open>TypeCheckingMode\<close> is declared in application_config.py,
  which is not among the sources; the orchestrator refers to its members \<open>Strict\<close> and
  \<open>Basic\<close>, and the spec leaves the set of severities open
  (\<open>{Strict, Basic, \<dots>}\<close>), so any further value is \<open>OtherMode\<close>.
\<close>

datatype TypeCheckingMode = Strict | Basic | OtherMode string

text \<open>One event per call on a collaborator.\<close>

datatype event =
    LoggerAdd
  | ScanClassesForFilePaths
  | GetClasses
  | GetEntities provider
  | RegisterComponent cls
  | RegisterController cls
  | GetRouterPrefix cls
  | NewAPIRouter cls
  | RegisterBeanCollection cls
  | RegisterProperties cls
  | RegisterEntityProvider provider
  | SetContext provider
  | TypeChecking
  | LoggerWarning exn
  | LoadProperties
  | InitIocContainer
  | InjectDependenciesForAppEntities
  | SetAllFilePaths
  | ValidateEntityProviders
  | ProviderInit provider
  | GetSingletonComponentInstances
  | FinishInitializationCycle component
  | FinishDestructionCycle component
  | GetControllerInstances
  | RegisterRoutes controller
  | GetRouter controller
  | IncludeRouter controller
  | RegisterMiddlewares controller
  | UvicornRun

text \<open>
  The environment: the configuration snapshot (\<open>entity_providers\<close>, \<open>log_file_path\<close>
  set or not, \<open>type_checking_mode\<close>, \<open>server_enabled\<close>), the class hierarchy
  (\<open>issubclass\<close>), the values the collaborators return, and \<open>raises\<close>: whether a call
  raises, given the calls made before it. The calls made once per run return a fixed
  value; \<open>get_singleton_component_instances\<close> is called once per lifecycle phase, and
  its answer depends on the trace up to and including the call.
\<close>

record env =
  entity_providers :: "provider list"
  log_file_path :: bool
  type_checking_mode :: TypeCheckingMode
  server_enabled :: bool
  issubclass :: "cls \<Rightarrow> app_entity \<Rightarrow> bool"
  ret_get_classes :: "cls list"
  ret_get_entities :: "provider \<Rightarrow> cls list"
  ret_type_checking :: "exn option"
  ret_get_singleton_component_instances :: "event list \<Rightarrow> component list"
  ret_get_controller_instances :: "controller list"
  raises :: "event list \<Rightarrow> event \<Rightarrow> exn option"

text \<open>The mutable state of a run: the trace, and the attribute \<open>self.scanned_classes\<close>.\<close>

record app =
  trace :: "event list"
  scanned_classes :: "cls list"

type_synonym action = "app \<Rightarrow> app \<times> exn option"

definition init_app_state :: app where
  "init_app_state = \<lparr>trace = [], scanned_classes = []\<rparr>"

section \<open>Control flow\<close>

text \<open>A call on a collaborator: the call is recorded, then it returns or raises.\<close>

definition call :: "env \<Rightarrow> event \<Rightarrow> action" where
  "call E ev s = (s\<lparr>trace := trace s @ [ev]\<rparr>, raises E (trace s) ev)"

definition skip :: action where
  "skip s = (s, None)"

text \<open>Statements in sequence: the first exception ends the sequence.\<close>

fun steps :: "action list \<Rightarrow> action" where
  "steps [] s = (s, None)"
| "steps (a # as) s =
     (case a s of
        (s', None) \<Rightarrow> steps as s'
      | (s', Some e) \<Rightarrow> (s', Some e))"

text \<open>A \<open>for\<close> loop over a list.\<close>

definition for_each :: "('a \<Rightarrow> action) \<Rightarrow> 'a list \<Rightarrow> action" where
  "for_each body xs = steps (map body xs)"

section \<open>The orchestrator\<close>

definition configure_logging :: "env \<Rightarrow> action" where
  "configure_logging E s = (if \<not> log_file_path E then (s, None) else call E LoggerAdd s)"

definition scan_classes_for_project :: "env \<Rightarrow> action" where
  "scan_classes_for_project E =
     steps [call E ScanClassesForFilePaths,
            call E GetClasses,
            (\<lambda>s. (s\<lparr>scanned_classes := ret_get_classes E\<rparr>, None))]"

definition handle_register_component :: "env \<Rightarrow> cls \<Rightarrow> action" where
  "handle_register_component E c = call E (RegisterComponent c)"

definition handle_register_rest_controller :: "env \<Rightarrow> cls \<Rightarrow> action" where
  "handle_register_rest_controller E c =
     steps [call E (RegisterController c),
            call E (GetRouterPrefix c),
            call E (NewAPIRouter c)]"

definition handle_register_bean_collection :: "env \<Rightarrow> cls \<Rightarrow> action" where
  "handle_register_bean_collection E c = call E (RegisterBeanCollection c)"

definition handle_register_properties :: "env \<Rightarrow> cls \<Rightarrow> action" where
  "handle_register_properties E c = call E (RegisterProperties c)"

definition classes_with_handlers :: "env \<Rightarrow> (app_entity \<times> (cls \<Rightarrow> action)) list" where
  "classes_with_handlers E =
     [(Component, handle_register_component E),
      (RestController, handle_register_rest_controller E),
      (BeanCollection, handle_register_bean_collection E),
      (Properties, handle_register_properties E)]"

definition register_app_entities :: "env \<Rightarrow> cls list \<Rightarrow> action" where
  "register_app_entities E classes =
     for_each (\<lambda>c.
       for_each (\<lambda>(target_cls, handler).
         if \<not> issubclass E c target_cls then skip else handler c)
       (classes_with_handlers E))
     classes"

definition register_all_entities_from_providers :: "env \<Rightarrow> action" where
  "register_all_entities_from_providers E =
     for_each (\<lambda>p.
       steps [call E (GetEntities p),
              register_app_entities E (ret_get_entities E p)])
     (entity_providers E)"

definition register_entity_providers :: "env \<Rightarrow> provider list \<Rightarrow> action" where
  "register_entity_providers E providers =
     for_each (\<lambda>p.
       steps [call E (RegisterEntityProvider p),
              call E (SetContext p)])
     providers"

definition init_providers :: "env \<Rightarrow> provider list \<Rightarrow> action" where
  "init_providers E providers = for_each (\<lambda>p. call E (ProviderInit p)) providers"

definition type_checking :: "env \<Rightarrow> action" where
  "type_checking E =
     steps [call E TypeChecking,
            (\<lambda>s. case ret_type_checking E of
                    None \<Rightarrow> (s, None)
                  | Some optional_error \<Rightarrow>
                      (case type_checking_mode E of
                         Strict \<Rightarrow> (s, Some optional_error)
                       | Basic \<Rightarrow> (s\<lparr>trace := trace s @ [LoggerWarning optional_error]\<rparr>, None)
                       | OtherMode m \<Rightarrow> (s, None)))]"

definition handle_singleton_components_life_cycle ::
  "env \<Rightarrow> ComponentLifeCycle \<Rightarrow> action" where
  "handle_singleton_components_life_cycle E life_cycle =
     steps [call E GetSingletonComponentInstances,
            (\<lambda>s. for_each (\<lambda>c.
                    case life_cycle of
                      Init \<Rightarrow> call E (FinishInitializationCycle c)
                    | Destruction \<Rightarrow> call E (FinishDestructionCycle c))
                  (ret_get_singleton_component_instances E (trace s)) s)]"

definition init_app :: "env \<Rightarrow> action" where
  "init_app E =
     steps [scan_classes_for_project E,
            register_all_entities_from_providers E,
            (\<lambda>s. register_app_entities E (scanned_classes s) s),
            register_entity_providers E (entity_providers E),
            type_checking E,
            call E LoadProperties,
            call E InitIocContainer,
            call E InjectDependenciesForAppEntities,
            call E SetAllFilePaths,
            call E ValidateEntityProviders,
            init_providers E (entity_providers E),
            handle_singleton_components_life_cycle E Init]"

definition init_controllers :: "env \<Rightarrow> action" where
  "init_controllers E =
     steps [call E GetControllerInstances,
            for_each (\<lambda>c.
              steps [call E (RegisterRoutes c),
                     call E (GetRouter c),
                     call E (IncludeRouter c),
                     call E (RegisterMiddlewares c)])
            (ret_get_controller_instances E)]"

definition run_server :: "env \<Rightarrow> action" where
  "run_server E = call E UvicornRun"

text \<open>The body of the \<open>try\<close> statement of \<open>run\<close>.\<close>

definition try_block :: "env \<Rightarrow> action" where
  "try_block E =
     steps [configure_logging E,
            init_app E,
            init_controllers E,
            (\<lambda>s. if server_enabled E then run_server E s else (s, None))]"

text \<open>
  \<open>run\<close>: the \<open>try\<close> body, then the \<open>finally\<close> clause. An exception of the
  \<open>finally\<close> clause replaces the one of the body; otherwise the body's exception, if
  any, is raised again after the clause.
\<close>

definition run :: "env \<Rightarrow> app \<times> exn option" where
  "run E =
     (case try_block E init_app_state of
        (s, r) \<Rightarrow>
          (case handle_singleton_components_life_cycle E Destruction s of
             (s', None) \<Rightarrow> (s', r)
           | (s', Some e) \<Rightarrow> (s', Some e)))"

section \<open>Vocabulary of the properties\<close>

subsection \<open>Runs in which no collaborator raises\<close>

text \<open>
  \<open>quiet E\<close> is the environment \<open>E\<close> with collaborators that never raise. The run
  under \<open>E\<close> is compared with the run under \<open>quiet E\<close>: \<open>cut E f g\<close> says that from
  every state \<open>f\<close> either does exactly what \<open>g\<close> does, or stops at a call that raises
  under \<open>E\<close>, with that exception, after a trace that \<open>g\<close> would have continued.
\<close>

definition quiet :: "env \<Rightarrow> env" where
  "quiet E = E\<lparr>raises := (\<lambda>t ev. None)\<rparr>"

definition cut :: "env \<Rightarrow> action \<Rightarrow> action \<Rightarrow> bool" where
  "cut E f g \<longleftrightarrow>
     (\<forall>s. prefix (trace s) (trace (fst (g s))) \<and>
          (f s = g s \<or>
           (\<exists>Y ev e. trace (fst (f s)) = trace s @ Y @ [ev] \<and>
                      raises E (trace s @ Y) ev = Some e \<and>
                      snd (f s) = Some e \<and>
                      prefix (trace (fst (f s))) (trace (fst (g s))))))"

text \<open>\<open>appends f X\<close>: the action \<open>f\<close> makes the calls \<open>X\<close> and returns normally.\<close>

definition appends :: "action \<Rightarrow> event list \<Rightarrow> bool" where
  "appends f X \<longleftrightarrow> (\<forall>s. f s = (s\<lparr>trace := trace s @ X\<rparr>, None))"

subsection \<open>The calls of a run in which no collaborator raises\<close>

definition entity_events :: "env \<Rightarrow> cls \<Rightarrow> event list" where
  "entity_events E c =
     (if issubclass E c Component then [RegisterComponent c] else []) @
     (if issubclass E c RestController
      then [RegisterController c, GetRouterPrefix c, NewAPIRouter c] else []) @
     (if issubclass E c BeanCollection then [RegisterBeanCollection c] else []) @
     (if issubclass E c Properties then [RegisterProperties c] else [])"

definition registration_events :: "env \<Rightarrow> cls list \<Rightarrow> event list" where
  "registration_events E classes = concat (map (entity_events E) classes)"

definition provider_entity_events :: "env \<Rightarrow> event list" where
  "provider_entity_events E =
     concat (map (\<lambda>p. GetEntities p # registration_events E (ret_get_entities E p))
                 (entity_providers E))"

definition provider_registration_events :: "provider list \<Rightarrow> event list" where
  "provider_registration_events providers =
     concat (map (\<lambda>p. [RegisterEntityProvider p, SetContext p]) providers)"

definition type_checking_events :: "env \<Rightarrow> event list" where
  "type_checking_events E =
     TypeChecking #
     (case ret_type_checking E of
        None \<Rightarrow> []
      | Some optional_error \<Rightarrow>
          (case type_checking_mode E of
             Strict \<Rightarrow> []
           | Basic \<Rightarrow> [LoggerWarning optional_error]
           | OtherMode m \<Rightarrow> []))"

definition type_checking_outcome :: "env \<Rightarrow> exn option" where
  "type_checking_outcome E =
     (case ret_type_checking E of
        None \<Rightarrow> None
      | Some optional_error \<Rightarrow>
          (case type_checking_mode E of
             Strict \<Rightarrow> Some optional_error
           | Basic \<Rightarrow> None
           | OtherMode m \<Rightarrow> None))"

definition hook :: "ComponentLifeCycle \<Rightarrow> component \<Rightarrow> event" where
  "hook life_cycle c =
     (case life_cycle of
        Init \<Rightarrow> FinishInitializationCycle c
      | Destruction \<Rightarrow> FinishDestructionCycle c)"

text \<open>The instances the container reports when asked after the trace \<open>h\<close>.\<close>

definition instances_after :: "env \<Rightarrow> event list \<Rightarrow> component list" where
  "instances_after E h =
     ret_get_singleton_component_instances E (h @ [GetSingletonComponentInstances])"

definition life_cycle_events :: "env \<Rightarrow> ComponentLifeCycle \<Rightarrow> event list \<Rightarrow> event list" where
  "life_cycle_events E life_cycle h =
     GetSingletonComponentInstances # map (hook life_cycle) (instances_after E h)"

definition controller_events :: "env \<Rightarrow> event list" where
  "controller_events E =
     GetControllerInstances #
     concat (map (\<lambda>c. [RegisterRoutes c, GetRouter c, IncludeRouter c, RegisterMiddlewares c])
                 (ret_get_controller_instances E))"

definition registration_script :: "env \<Rightarrow> event list" where
  "registration_script E =
     (if log_file_path E then [LoggerAdd] else []) @
     [ScanClassesForFilePaths, GetClasses] @
     provider_entity_events E @
     registration_events E (ret_get_classes E) @
     provider_registration_events (entity_providers E)"

definition wiring_script :: "env \<Rightarrow> event list" where
  "wiring_script E =
     registration_script E @
     type_checking_events E @
     [LoadProperties, InitIocContainer, InjectDependenciesForAppEntities,
      SetAllFilePaths, ValidateEntityProviders] @
     map ProviderInit (entity_providers E)"

definition startup_script :: "env \<Rightarrow> event list" where
  "startup_script E =
     (if type_checking_outcome E \<noteq> None
      then registration_script E @ type_checking_events E
      else wiring_script E @
           life_cycle_events E Init (wiring_script E) @
           controller_events E @
           (if server_enabled E then [UvicornRun] else []))"

text \<open>The calls of the startup script after the type checking call.\<close>

definition after_gate :: "env \<Rightarrow> event list" where
  "after_gate E = drop (Suc (length (registration_script E))) (startup_script E)"

subsection \<open>Order of calls in a trace\<close>

text \<open>\<open>preceded P Q t\<close>: no call \<open>Q\<close> is made in \<open>t\<close> before the first call \<open>P\<close>.\<close>

fun preceded :: "('a \<Rightarrow> bool) \<Rightarrow> ('a \<Rightarrow> bool) \<Rightarrow> 'a list \<Rightarrow> bool" where
  "preceded P Q [] = True"
| "preceded P Q (e # t) = (if P e then True else \<not> Q e \<and> preceded P Q t)"

text \<open>\<open>never_after P Q t\<close>: no call \<open>Q\<close> is made in \<open>t\<close> after a call \<open>P\<close>.\<close>

fun never_after :: "('a \<Rightarrow> bool) \<Rightarrow> ('a \<Rightarrow> bool) \<Rightarrow> 'a list \<Rightarrow> bool" where
  "never_after P Q [] = True"
| "never_after P Q (e # t) = ((if P e then \<not> list_ex Q t else True) \<and> never_after P Q t)"

fun is_registration_call :: "event \<Rightarrow> bool" where
  "is_registration_call (RegisterComponent c) = True"
| "is_registration_call (RegisterController c) = True"
| "is_registration_call (RegisterBeanCollection c) = True"
| "is_registration_call (RegisterProperties c) = True"
| "is_registration_call _ = False"

fun is_provider_registration :: "event \<Rightarrow> bool" where
  "is_provider_registration (RegisterEntityProvider p) = True"
| "is_provider_registration (SetContext p) = True"
| "is_provider_registration _ = False"

fun is_provider_init :: "event \<Rightarrow> bool" where
  "is_provider_init (ProviderInit p) = True"
| "is_provider_init _ = False"

fun is_include_router :: "event \<Rightarrow> bool" where
  "is_include_router (IncludeRouter c) = True"
| "is_include_router _ = False"

fun is_destruction_hook :: "event \<Rightarrow> bool" where
  "is_destruction_hook (FinishDestructionCycle c) = True"
| "is_destruction_hook _ = False"

fun is_warning :: "event \<Rightarrow> bool" where
  "is_warning (LoggerWarning e) = True"
| "is_warning _ = False"

text \<open>The registration call of the container for a capability category.\<close>

definition registration_call :: "app_entity \<Rightarrow> cls \<Rightarrow> event" where
  "registration_call k c =
     (case k of
        Component \<Rightarrow> RegisterComponent c
      | RestController \<Rightarrow> RegisterController c
      | BeanCollection \<Rightarrow> RegisterBeanCollection c
      | Properties \<Rightarrow> RegisterProperties c)"

text \<open>
  The registration calls due for a list of candidate entities: for each candidate in
  turn, one call per category it satisfies.
\<close>

definition classified :: "env \<Rightarrow> cls list \<Rightarrow> event list" where
  "classified E classes =
     concat (map (\<lambda>c. map (\<lambda>k. registration_call k c)
                          (filter (issubclass E c)
                                  [Component, RestController, BeanCollection, Properties]))
                 classes)"

definition provider_entities :: "env \<Rightarrow> cls list" where
  "provider_entities E = concat (map (ret_get_entities E) (entity_providers E))"

subsection \<open>Calls that returned\<close>

text \<open>
  \<open>calls_returned E t\<close>: every call of the trace \<open>t\<close> returned normally, that is,
  did not raise after the calls made before it (\<open>logger.warning\<close> is not a call that
  can raise). \<open>records_returns E f\<close>: started after calls that all returned, the action
  \<open>f\<close> only adds calls, of which every one but possibly the last returned, and all
  of them when \<open>f\<close> itself returns normally.
\<close>

definition calls_returned :: "env \<Rightarrow> event list \<Rightarrow> bool" where
  "calls_returned E t \<longleftrightarrow>
     (\<forall>h e rest. t = h @ e # rest \<longrightarrow> \<not> is_warning e \<longrightarrow> raises E h e = None)"

definition records_returns :: "env \<Rightarrow> action \<Rightarrow> bool" where
  "records_returns E f \<longleftrightarrow>
     (\<forall>s. calls_returned E (trace s) \<longrightarrow>
          (\<exists>Y. trace (fst (f s)) = trace s @ Y \<and>
               calls_returned E (trace s @ butlast Y) \<and>
               (snd (f s) = None \<longrightarrow> calls_returned E (trace s @ Y))))"

text \<open>The calls of the \<open>finally\<close> clause.\<close>

definition teardown_quiet :: "env \<Rightarrow> bool" where
  "teardown_quiet E \<longleftrightarrow>
     (\<forall>t. raises E t GetSingletonComponentInstances = None) \<and>
     (\<forall>t c. raises E t (FinishDestructionCycle c) = None)"

section \<open>Concrete configurations\<close>

text \<open>
  One provider (7) contributing a component class (5) and a properties class (4); three
  scanned classes: a component (1), a class that is both a component and a rest
  controller (2) and a class of no category (3); three singleton component instances and
  one controller instance; a log file, the server enabled, and a type checking service
  that reports an error.
\<close>

definition demo_env :: env where
  "demo_env =
     \<lparr>entity_providers = [7],
      log_file_path = True,
      type_checking_mode = Basic,
      server_enabled = True,
      issubclass = (\<lambda>c k. (c = 1 \<and> k = Component) \<or>
                           (c = 2 \<and> (k = Component \<or> k = RestController)) \<or>
                           (c = 4 \<and> k = Properties) \<or>
                           (c = 5 \<and> k = Component)),
      ret_get_classes = [1, 2, 3],
      ret_get_entities = (\<lambda>p. if p = 7 then [5, 4] else []),
      ret_type_checking = Some ''type error'',
      ret_get_singleton_component_instances = (\<lambda>t. [10, 11, 12]),
      ret_get_controller_instances = [20],
      raises = (\<lambda>t ev. None)\<rparr>"

definition strict_env :: env where
  "strict_env = demo_env\<lparr>type_checking_mode := Strict\<rparr>"

definition other_env :: env where
  "other_env = demo_env\<lparr>type_checking_mode := OtherMode ''Off''\<rparr>"

text \<open>The destruction hook of instance 11 raises.\<close>

definition hook_fails_env :: env where
  "hook_fails_env =
     demo_env\<lparr>raises := (\<lambda>t ev. if ev = FinishDestructionCycle 11
                                    then Some ''hook failed'' else None)\<rparr>"

text \<open>The same under severity \<open>Strict\<close>.\<close>

definition strict_hook_fails_env :: env where
  "strict_hook_fails_env = hook_fails_env\<lparr>type_checking_mode := Strict\<rparr>"


section \<open>Runs and their traces\<close>

lemma cutI:
  assumes "\<And>s. prefix (trace s) (trace (fst (g s)))"
    and "\<And>s. f s = g s \<or>
           (\<exists>Y ev e. trace (fst (f s)) = trace s @ Y @ [ev] \<and>
                      raises E (trace s @ Y) ev = Some e \<and>
                      snd (f s) = Some e \<and>
                      prefix (trace (fst (f s))) (trace (fst (g s))))"
  shows "cut E f g"
  using assms unfolding cut_def by blast

lemma cut_grows: "cut E f g \<Longrightarrow> prefix (trace s) (trace (fst (g s)))"
  unfolding cut_def by blast

lemma cut_cases [consumes 1, case_names same raised]:
  assumes "cut E f g"
  obtains (same) "f s = g s"
  | (raised) Y ev e where "trace (fst (f s)) = trace s @ Y @ [ev]"
      "raises E (trace s @ Y) ev = Some e" "snd (f s) = Some e"
      "prefix (trace (fst (f s))) (trace (fst (g s)))"
  using assms unfolding cut_def by blast

lemma cut_refl: "(\<And>s. prefix (trace s) (trace (fst (f s)))) \<Longrightarrow> cut E f f"
  by (rule cutI) auto

lemma cut_call: "cut E (call E ev) (call (quiet E) ev)"
proof (rule cutI)
  fix s
  show "prefix (trace s) (trace (fst (call (quiet E) ev s)))"
    by (simp add: call_def)
  show "call E ev s = call (quiet E) ev s \<or>
        (\<exists>Y ev' e. trace (fst (call E ev s)) = trace s @ Y @ [ev'] \<and>
                    raises E (trace s @ Y) ev' = Some e \<and>
                    snd (call E ev s) = Some e \<and>
                    prefix (trace (fst (call E ev s))) (trace (fst (call (quiet E) ev s))))"
  proof (cases "raises E (trace s) ev")
    case None
    then show ?thesis by (simp add: call_def quiet_def)
  next
    case (Some e)
    then have "trace (fst (call E ev s)) = trace s @ [] @ [ev] \<and>
               raises E (trace s @ []) ev = Some e \<and>
               snd (call E ev s) = Some e \<and>
               prefix (trace (fst (call E ev s))) (trace (fst (call (quiet E) ev s)))"
      by (simp add: call_def)
    then show ?thesis by blast
  qed
qed

lemma cut_skip: "cut E skip skip"
  by (rule cut_refl) (simp add: skip_def)

lemma cut_steps_Nil: "cut E (steps []) (steps [])"
  by (rule cut_refl) simp

lemma cut_steps_Cons:
  assumes f: "cut E f g" and fs: "cut E (steps fs) (steps gs)"
  shows "cut E (steps (f # fs)) (steps (g # gs))"
proof (rule cutI)
  fix s
  obtain s1 r1 where g: "g s = (s1, r1)" by (cases "g s")
  have g1: "prefix (trace s) (trace s1)"
    using cut_grows [OF f, of s] g by simp
  have g2: "prefix (trace s1) (trace (fst (steps gs s1)))"
    by (rule cut_grows [OF fs])
  have gg: "prefix (trace s1) (trace (fst (steps (g # gs) s)))"
    using g g2 by (cases r1) auto
  show grows: "prefix (trace s) (trace (fst (steps (g # gs) s)))"
    using g1 gg by (rule prefix_order.trans)
  show "steps (f # fs) s = steps (g # gs) s \<or>
        (\<exists>Y ev e. trace (fst (steps (f # fs) s)) = trace s @ Y @ [ev] \<and>
                   raises E (trace s @ Y) ev = Some e \<and>
                   snd (steps (f # fs) s) = Some e \<and>
                   prefix (trace (fst (steps (f # fs) s))) (trace (fst (steps (g # gs) s))))"
  using f
  proof (cases rule: cut_cases [where s = s])
    case same
    show ?thesis
    proof (cases r1)
      case (Some e)
      with same g show ?thesis by simp
    next
      case None
      then have l: "steps (f # fs) s = steps fs s1" and r: "steps (g # gs) s = steps gs s1"
        using same g by simp_all
      show ?thesis
      using fs
      proof (cases rule: cut_cases [where s = s1])
        case same
        with l r show ?thesis by simp
      next
        case (raised Y ev e)
        from g1 obtain Y1 where Y1: "trace s1 = trace s @ Y1"
          by (auto simp: prefix_def)
        have "trace (fst (steps (f # fs) s)) = trace s @ (Y1 @ Y) @ [ev] \<and>
              raises E (trace s @ (Y1 @ Y)) ev = Some e \<and>
              snd (steps (f # fs) s) = Some e \<and>
              prefix (trace (fst (steps (f # fs) s))) (trace (fst (steps (g # gs) s)))"
          using raised l r Y1 by simp
        then show ?thesis by blast
      qed
    qed
  next
    case (raised Y ev e)
    obtain s' where fs': "f s = (s', Some e)"
      using raised(3) by (cases "f s") auto
    then have l: "steps (f # fs) s = f s" by simp
    have "prefix (trace (fst (f s))) (trace (fst (steps (g # gs) s)))"
      using raised(4) gg g by (auto intro: prefix_order.trans)
    then have "trace (fst (steps (f # fs) s)) = trace s @ Y @ [ev] \<and>
              raises E (trace s @ Y) ev = Some e \<and>
              snd (steps (f # fs) s) = Some e \<and>
              prefix (trace (fst (steps (f # fs) s))) (trace (fst (steps (g # gs) s)))"
      using raised l by simp
    then show ?thesis by blast
  qed
qed

lemma cut_for_each:
  assumes "\<And>x. cut E (f x) (g x)"
  shows "cut E (for_each f xs) (for_each g xs)"
  unfolding for_each_def
proof (induction xs)
  case Nil
  show ?case unfolding list.map by (rule cut_steps_Nil)
next
  case (Cons x xs)
  show ?case unfolding list.map by (rule cut_steps_Cons [OF assms Cons])
qed

lemma cut_dep:
  assumes "\<And>x. cut E (F x) (G x)"
  shows "cut E (\<lambda>s. F (h s) s) (\<lambda>s. G (h s) s)"
  using assms unfolding cut_def by blast

lemma cut_if:
  "cut E f g \<Longrightarrow> cut E f' g' \<Longrightarrow> cut E (if b then f else f') (if b then g else g')"
  by simp


subsection \<open>quiet fields\<close>

lemma quiet_fields [simp]:
  "entity_providers (quiet E) = entity_providers E"
  "log_file_path (quiet E) = log_file_path E"
  "type_checking_mode (quiet E) = type_checking_mode E"
  "server_enabled (quiet E) = server_enabled E"
  "issubclass (quiet E) = issubclass E"
  "ret_get_classes (quiet E) = ret_get_classes E"
  "ret_get_entities (quiet E) = ret_get_entities E"
  "ret_type_checking (quiet E) = ret_type_checking E"
  "ret_get_singleton_component_instances (quiet E) = ret_get_singleton_component_instances E"
  "ret_get_controller_instances (quiet E) = ret_get_controller_instances E"
  "raises (quiet E) t ev = None"
  by (simp_all add: quiet_def)

subsection \<open>cut for the orchestrator\<close>

lemma configure_logging_cut: "cut E (configure_logging E) (configure_logging (quiet E))"
proof -
  have l: "configure_logging E = (if \<not> log_file_path E then skip else call E LoggerAdd)" for E
    by (rule ext) (simp add: configure_logging_def skip_def)
  show ?thesis
    unfolding l quiet_fields by (intro cut_if cut_skip cut_call)
qed

lemma scan_classes_for_project_cut:
  "cut E (scan_classes_for_project E) (scan_classes_for_project (quiet E))"
  unfolding scan_classes_for_project_def quiet_fields
  by (intro cut_steps_Cons cut_steps_Nil cut_call cut_refl) simp

lemma handlers_cut:
  "cut E (handle_register_component E c) (handle_register_component (quiet E) c)"
  "cut E (handle_register_rest_controller E c) (handle_register_rest_controller (quiet E) c)"
  "cut E (handle_register_bean_collection E c) (handle_register_bean_collection (quiet E) c)"
  "cut E (handle_register_properties E c) (handle_register_properties (quiet E) c)"
  unfolding handle_register_component_def handle_register_rest_controller_def
    handle_register_bean_collection_def handle_register_properties_def
  by (intro cut_steps_Cons cut_steps_Nil cut_call)+

lemma register_app_entities_cut:
  "cut E (register_app_entities E classes) (register_app_entities (quiet E) classes)"
  unfolding register_app_entities_def
proof (rule cut_for_each)
  fix c
  show "cut E
     (for_each (\<lambda>(target_cls, handler). if \<not> issubclass E c target_cls then skip else handler c)
        (classes_with_handlers E))
     (for_each (\<lambda>(target_cls, handler).
          if \<not> issubclass (quiet E) c target_cls then skip else handler c)
        (classes_with_handlers (quiet E)))"
    unfolding classes_with_handlers_def for_each_def list.map prod.case quiet_fields
    by (intro cut_steps_Cons cut_steps_Nil cut_if cut_skip handlers_cut)
qed

lemma register_all_entities_from_providers_cut:
  "cut E (register_all_entities_from_providers E) (register_all_entities_from_providers (quiet E))"
  unfolding register_all_entities_from_providers_def quiet_fields
  by (intro cut_for_each cut_steps_Cons cut_steps_Nil cut_call register_app_entities_cut)

lemma register_entity_providers_cut:
  "cut E (register_entity_providers E ps) (register_entity_providers (quiet E) ps)"
  unfolding register_entity_providers_def
  by (intro cut_for_each cut_steps_Cons cut_steps_Nil cut_call)

lemma init_providers_cut:
  "cut E (init_providers E ps) (init_providers (quiet E) ps)"
  unfolding init_providers_def
  by (intro cut_for_each cut_call)

lemma type_checking_cut: "cut E (type_checking E) (type_checking (quiet E))"
  unfolding type_checking_def quiet_fields
  by (intro cut_steps_Cons cut_steps_Nil cut_call cut_refl)
     (simp split: option.split TypeCheckingMode.split)

lemma hook_cut:
  "cut E (case life_cycle of Init \<Rightarrow> call E (FinishInitializationCycle c)
                           | Destruction \<Rightarrow> call E (FinishDestructionCycle c))
         (case life_cycle of Init \<Rightarrow> call (quiet E) (FinishInitializationCycle c)
                           | Destruction \<Rightarrow> call (quiet E) (FinishDestructionCycle c))"
  by (cases life_cycle) (simp_all add: cut_call)

lemma handle_singleton_components_life_cycle_cut:
  "cut E (handle_singleton_components_life_cycle E life_cycle)
         (handle_singleton_components_life_cycle (quiet E) life_cycle)"
  unfolding handle_singleton_components_life_cycle_def quiet_fields
proof (intro cut_steps_Cons cut_steps_Nil cut_call)
  show "cut E
     (\<lambda>s. for_each
            (\<lambda>c. case life_cycle of Init \<Rightarrow> call E (FinishInitializationCycle c)
                 | Destruction \<Rightarrow> call E (FinishDestructionCycle c))
            (ret_get_singleton_component_instances E (trace s)) s)
     (\<lambda>s. for_each
            (\<lambda>c. case life_cycle of Init \<Rightarrow> call (quiet E) (FinishInitializationCycle c)
                 | Destruction \<Rightarrow> call (quiet E) (FinishDestructionCycle c))
            (ret_get_singleton_component_instances E (trace s)) s)"
    by (rule cut_dep) (intro cut_for_each hook_cut)
qed

lemma init_app_cut: "cut E (init_app E) (init_app (quiet E))"
  unfolding init_app_def quiet_fields
proof (intro cut_steps_Cons cut_steps_Nil cut_call scan_classes_for_project_cut
    register_all_entities_from_providers_cut register_entity_providers_cut
    type_checking_cut init_providers_cut handle_singleton_components_life_cycle_cut)
  show "cut E (\<lambda>s. register_app_entities E (scanned_classes s) s)
              (\<lambda>s. register_app_entities (quiet E) (scanned_classes s) s)"
    by (rule cut_dep) (rule register_app_entities_cut)
qed

lemma init_controllers_cut: "cut E (init_controllers E) (init_controllers (quiet E))"
  unfolding init_controllers_def quiet_fields
  by (intro cut_steps_Cons cut_steps_Nil cut_for_each cut_call)

lemma try_block_cut: "cut E (try_block E) (try_block (quiet E))"
  unfolding try_block_def quiet_fields
proof (intro cut_steps_Cons cut_steps_Nil configure_logging_cut init_app_cut init_controllers_cut)
  have l: "(\<lambda>s. if server_enabled E then run_server E' s else (s, None)) =
           (if server_enabled E then call E' UvicornRun else skip)" for E'
    by (rule ext) (simp add: run_server_def skip_def)
  show "cut E (\<lambda>s. if server_enabled E then run_server E s else (s, None))
              (\<lambda>s. if server_enabled E then run_server (quiet E) s else (s, None))"
    unfolding l by (intro cut_if cut_call cut_skip)
qed

subsection \<open>Runs without exceptions\<close>

lemma appendsD: "appends f X \<Longrightarrow> f s = (s\<lparr>trace := trace s @ X\<rparr>, None)"
  by (simp add: appends_def)

lemma appends_call: "appends (call (quiet E) ev) [ev]"
  by (simp add: appends_def call_def)

lemma appends_skip: "appends skip []"
  by (simp add: appends_def skip_def)

lemma appends_steps_Nil: "appends (steps []) []"
  by (simp add: appends_def)

lemma appends_steps_Cons:
  "appends f X \<Longrightarrow> appends (steps fs) Y \<Longrightarrow> appends (steps (f # fs)) (X @ Y)"
  by (simp add: appends_def)

lemma appends_for_each:
  assumes "\<And>x. appends (g x) (X x)"
  shows "appends (for_each g xs) (concat (map X xs))"
  unfolding for_each_def
proof (induction xs)
  case Nil
  show ?case unfolding list.map concat.simps by (rule appends_steps_Nil)
next
  case (Cons x xs)
  show ?case unfolding list.map concat.simps by (rule appends_steps_Cons [OF assms Cons])
qed

lemma appends_if:
  "appends f X \<Longrightarrow> appends g Y \<Longrightarrow> appends (if b then f else g) (if b then X else Y)"
  by simp

lemma appends_eq: "appends f X \<Longrightarrow> X = Y \<Longrightarrow> appends f Y"
  by simp

lemma handlers_appends:
  "appends (handle_register_component (quiet E) c) [RegisterComponent c]"
  "appends (handle_register_rest_controller (quiet E) c)
     [RegisterController c, GetRouterPrefix c, NewAPIRouter c]"
  "appends (handle_register_bean_collection (quiet E) c) [RegisterBeanCollection c]"
  "appends (handle_register_properties (quiet E) c) [RegisterProperties c]"
  by (simp_all add: appends_def call_def handle_register_component_def
      handle_register_rest_controller_def handle_register_bean_collection_def
      handle_register_properties_def)

lemma classify_appends:
  "appends
     (for_each (\<lambda>(target_cls, handler).
          if \<not> issubclass (quiet E) c target_cls then skip else handler c)
        (classes_with_handlers (quiet E)))
     (entity_events E c)"
  by (simp add: appends_def for_each_def classes_with_handlers_def entity_events_def
      skip_def appendsD [OF handlers_appends(1)] appendsD [OF handlers_appends(2)]
      appendsD [OF handlers_appends(3)] appendsD [OF handlers_appends(4)])

lemma register_app_entities_appends:
  "appends (register_app_entities (quiet E) classes) (registration_events E classes)"
  unfolding register_app_entities_def registration_events_def
  by (rule appends_for_each) (rule classify_appends)

lemma register_all_entities_from_providers_appends:
  "appends (register_all_entities_from_providers (quiet E)) (provider_entity_events E)"
  unfolding register_all_entities_from_providers_def provider_entity_events_def quiet_fields
proof (rule appends_for_each)
  fix p
  show "appends (steps [call (quiet E) (GetEntities p),
                        register_app_entities (quiet E) (ret_get_entities E p)])
          (GetEntities p # registration_events E (ret_get_entities E p))"
    by (simp add: appends_def appendsD [OF appends_call]
        appendsD [OF register_app_entities_appends])
qed

lemma register_entity_providers_appends:
  "appends (register_entity_providers (quiet E) ps) (provider_registration_events ps)"
  unfolding register_entity_providers_def provider_registration_events_def
  by (rule appends_for_each) (simp add: appends_def appendsD [OF appends_call])

lemma init_providers_appends:
  "appends (init_providers (quiet E) ps) (map ProviderInit ps)"
proof -
  have "appends (init_providers (quiet E) ps) (concat (map (\<lambda>p. [ProviderInit p]) ps))"
    unfolding init_providers_def by (rule appends_for_each) (rule appends_call)
  then show ?thesis by (simp add: concat_map_singleton)
qed

lemma init_controllers_appends:
  "appends (init_controllers (quiet E)) (controller_events E)"
proof -
  have h: "appends (for_each (\<lambda>c. steps [call (quiet E) (RegisterRoutes c),
                     call (quiet E) (GetRouter c),
                     call (quiet E) (IncludeRouter c),
                     call (quiet E) (RegisterMiddlewares c)]) cs)
          (concat (map (\<lambda>c. [RegisterRoutes c, GetRouter c, IncludeRouter c,
                                        RegisterMiddlewares c]) cs))" for cs
    by (rule appends_for_each) (simp add: appends_def appendsD [OF appends_call])
  show ?thesis
    by (simp add: appends_def init_controllers_def controller_events_def
        appendsD [OF appends_call] appendsD [OF h])
qed

lemma configure_logging_appends:
  "appends (configure_logging (quiet E)) (if log_file_path E then [LoggerAdd] else [])"
  by (simp add: appends_def configure_logging_def call_def)

lemma type_checking_quiet:
  "type_checking (quiet E) s =
     (s\<lparr>trace := trace s @ type_checking_events E\<rparr>, type_checking_outcome E)"
  by (simp add: type_checking_def type_checking_events_def type_checking_outcome_def
      appendsD [OF appends_call] split: option.split TypeCheckingMode.split)

lemma scan_classes_for_project_quiet:
  "scan_classes_for_project (quiet E) s =
     (s\<lparr>trace := trace s @ [ScanClassesForFilePaths, GetClasses],
        scanned_classes := ret_get_classes E\<rparr>, None)"
  by (simp add: scan_classes_for_project_def appendsD [OF appends_call])

lemma handle_singleton_components_life_cycle_quiet:
  "handle_singleton_components_life_cycle (quiet E) life_cycle s =
     (s\<lparr>trace := trace s @ life_cycle_events E life_cycle (trace s)\<rparr>, None)"
proof -
  have h: "appends (for_each (\<lambda>c. case life_cycle of
                      Init \<Rightarrow> call (quiet E) (FinishInitializationCycle c)
                    | Destruction \<Rightarrow> call (quiet E) (FinishDestructionCycle c)) cs)
          (concat (map (\<lambda>c. [hook life_cycle c]) cs))" for cs
    by (rule appends_for_each) (cases life_cycle; simp add: hook_def appends_call)
  show ?thesis
    by (simp add: handle_singleton_components_life_cycle_def life_cycle_events_def
        instances_after_def appendsD [OF appends_call] appendsD [OF h] concat_map_singleton)
qed

lemma init_app_quiet:
  "init_app (quiet E) s =
     (if type_checking_outcome E \<noteq> None
      then (s\<lparr>trace := trace s @ [ScanClassesForFilePaths, GetClasses] @
                 provider_entity_events E @ registration_events E (ret_get_classes E) @
                 provider_registration_events (entity_providers E) @ type_checking_events E,
               scanned_classes := ret_get_classes E\<rparr>, type_checking_outcome E)
      else (let h = trace s @ [ScanClassesForFilePaths, GetClasses] @
                 provider_entity_events E @ registration_events E (ret_get_classes E) @
                 provider_registration_events (entity_providers E) @ type_checking_events E @
                 [LoadProperties, InitIocContainer, InjectDependenciesForAppEntities,
                  SetAllFilePaths, ValidateEntityProviders] @
                 map ProviderInit (entity_providers E)
            in (s\<lparr>trace := h @ life_cycle_events E Init h,
                   scanned_classes := ret_get_classes E\<rparr>, None)))"
  by (cases "type_checking_outcome E")
     (simp_all add: init_app_def scan_classes_for_project_quiet
      appendsD [OF register_all_entities_from_providers_appends]
      appendsD [OF register_app_entities_appends]
      appendsD [OF register_entity_providers_appends]
      type_checking_quiet appendsD [OF appends_call]
      appendsD [OF init_providers_appends]
      handle_singleton_components_life_cycle_quiet Let_def)

lemma try_block_quiet:
  "try_block (quiet E) init_app_state =
     (\<lparr>trace = startup_script E, scanned_classes = ret_get_classes E\<rparr>,
      type_checking_outcome E)"
  by (cases "type_checking_outcome E")
     (simp_all add: try_block_def init_app_state_def startup_script_def wiring_script_def
      registration_script_def appendsD [OF configure_logging_appends] init_app_quiet
      appendsD [OF init_controllers_appends] run_server_def appendsD [OF appends_call]
      Let_def)

subsection \<open>The shape of a run\<close>

lemma trace_init_app_state: "trace init_app_state = []"
  by (simp add: init_app_state_def)

lemma try_block_cases [case_names complete raised]:
  obtains (complete)
    "try_block E init_app_state =
       (\<lparr>trace = startup_script E, scanned_classes = ret_get_classes E\<rparr>,
        type_checking_outcome E)"
  | (raised) Y ev e where
      "trace (fst (try_block E init_app_state)) = Y @ [ev]"
      "raises E Y ev = Some e"
      "snd (try_block E init_app_state) = Some e"
      "prefix (Y @ [ev]) (startup_script E)"
  using try_block_cut [of E]
proof (cases rule: cut_cases [where s = init_app_state])
  case same
  then show ?thesis using that(1) by (simp add: try_block_quiet)
next
  case (raised Y ev e)
  then show ?thesis using that(2) [of Y ev e]
    by (simp add: try_block_quiet trace_init_app_state)
qed

lemma try_block_prefix: "prefix (trace (fst (try_block E init_app_state))) (startup_script E)"
  by (cases E rule: try_block_cases) simp_all

lemma life_cycle_cases [case_names complete raised]:
  obtains (complete)
    "handle_singleton_components_life_cycle E life_cycle s =
       (s\<lparr>trace := trace s @ life_cycle_events E life_cycle (trace s)\<rparr>, None)"
  | (raised) Y ev e where
      "trace (fst (handle_singleton_components_life_cycle E life_cycle s)) = trace s @ Y @ [ev]"
      "raises E (trace s @ Y) ev = Some e"
      "snd (handle_singleton_components_life_cycle E life_cycle s) = Some e"
      "prefix (Y @ [ev]) (life_cycle_events E life_cycle (trace s))"
  using handle_singleton_components_life_cycle_cut [of E life_cycle]
proof (cases rule: cut_cases [where s = s])
  case same
  then show ?thesis using that(1)
    by (simp add: handle_singleton_components_life_cycle_quiet)
next
  case (raised Y ev e)
  then show ?thesis using that(2) [of Y ev e]
    by (simp add: handle_singleton_components_life_cycle_quiet)
qed

lemma prefix_life_cycle_events:
  assumes "prefix Z (life_cycle_events E life_cycle h)" and "Z \<noteq> []"
  obtains cs where "prefix cs (instances_after E h)"
    and "Z = GetSingletonComponentInstances # map (hook life_cycle) cs"
proof -
  obtain z Z' where Z: "Z = z # Z'" using assms(2) by (cases Z) auto
  with assms(1) have z: "z = GetSingletonComponentInstances"
    and Z': "prefix Z' (map (hook life_cycle) (instances_after E h))"
    by (simp_all add: life_cycle_events_def)
  from prefix_map_rightE [OF Z']
  obtain cs where "prefix cs (instances_after E h)" "Z' = map (hook life_cycle) cs"
    by blast
  with Z z that show thesis by simp
qed

lemma life_cycle_trace:
  obtains cs where "prefix cs (instances_after E (trace s))"
    and "trace (fst (handle_singleton_components_life_cycle E life_cycle s)) =
           trace s @ GetSingletonComponentInstances # map (hook life_cycle) cs"
proof (cases E life_cycle s rule: life_cycle_cases)
  case complete
  then show ?thesis using that [of "instances_after E (trace s)"]
    by (simp add: life_cycle_events_def)
next
  case (raised Y ev e)
  from raised(4) obtain cs where "prefix cs (instances_after E (trace s))"
    and "Y @ [ev] = GetSingletonComponentInstances # map (hook life_cycle) cs"
    by (rule prefix_life_cycle_events) simp
  with raised(1) show ?thesis using that [of cs] by simp
qed

lemma run_trace:
  obtains cs where
    "prefix cs (instances_after E (trace (fst (try_block E init_app_state))))"
    and "trace (fst (run E)) =
           trace (fst (try_block E init_app_state)) @
           GetSingletonComponentInstances # map FinishDestructionCycle cs"
proof -
  obtain s r where t: "try_block E init_app_state = (s, r)"
    by (cases "try_block E init_app_state")
  obtain cs where cs: "prefix cs (instances_after E (trace s))"
    and tr: "trace (fst (handle_singleton_components_life_cycle E Destruction s)) =
           trace s @ GetSingletonComponentInstances # map (hook Destruction) cs"
    by (rule life_cycle_trace)
  have h: "hook Destruction = FinishDestructionCycle"
    by (rule ext) (simp add: hook_def)
  have "trace (fst (run E)) = trace (fst (handle_singleton_components_life_cycle E Destruction s))"
    by (simp add: run_def t split: prod.split option.split)
  with cs tr h t show ?thesis using that [of cs] by simp
qed

lemma run_outcome_teardown_quiet:
  assumes "teardown_quiet E"
  shows "snd (run E) = snd (try_block E init_app_state)"
    and "trace (fst (run E)) =
           trace (fst (try_block E init_app_state)) @
           life_cycle_events E Destruction (trace (fst (try_block E init_app_state)))"
proof -
  obtain s r where t: "try_block E init_app_state = (s, r)"
    by (cases "try_block E init_app_state")
  have c: "handle_singleton_components_life_cycle E Destruction s =
       (s\<lparr>trace := trace s @ life_cycle_events E Destruction (trace s)\<rparr>, None)"
  proof (cases E Destruction s rule: life_cycle_cases)
    case complete
    then show ?thesis .
  next
    case (raised Y ev e)
    from raised(4) obtain cs where
      "Y @ [ev] = GetSingletonComponentInstances # map (hook Destruction) cs"
      by (rule prefix_life_cycle_events) simp
    then have "ev = GetSingletonComponentInstances \<or> (\<exists>c. ev = FinishDestructionCycle c)"
      by (cases cs rule: rev_cases) (auto simp: hook_def Cons_eq_append_conv)
    with assms raised(2) show ?thesis by (auto simp: teardown_quiet_def)
  qed
  show "snd (run E) = snd (try_block E init_app_state)"
    by (simp add: run_def t c)
  show "trace (fst (run E)) =
           trace (fst (try_block E init_app_state)) @
           life_cycle_events E Destruction (trace (fst (try_block E init_app_state)))"
    by (simp add: run_def t c)
qed

subsection \<open>Events of the scripts\<close>

lemma in_registration_events:
  "e \<in> set (registration_events E classes) \<Longrightarrow>
     (\<exists>c. e = RegisterComponent c \<or> e = RegisterController c \<or> e = GetRouterPrefix c \<or>
          e = NewAPIRouter c \<or> e = RegisterBeanCollection c \<or> e = RegisterProperties c)"
  by (auto simp: registration_events_def entity_events_def split: if_splits)

lemma in_provider_entity_events:
  "e \<in> set (provider_entity_events E) \<Longrightarrow>
     (\<exists>c. e = GetEntities c \<or> e = RegisterComponent c \<or> e = RegisterController c \<or>
          e = GetRouterPrefix c \<or> e = NewAPIRouter c \<or> e = RegisterBeanCollection c \<or>
          e = RegisterProperties c)"
  by (auto simp: provider_entity_events_def dest: in_registration_events)

lemma in_provider_registration_events:
  "e \<in> set (provider_registration_events ps) \<Longrightarrow>
     (\<exists>p. e = RegisterEntityProvider p \<or> e = SetContext p)"
  by (auto simp: provider_registration_events_def)

lemma in_registration_script:
  "e \<in> set (registration_script E) \<Longrightarrow>
     e = LoggerAdd \<or> e = ScanClassesForFilePaths \<or> e = GetClasses \<or>
     (\<exists>c. e = GetEntities c \<or> e = RegisterComponent c \<or> e = RegisterController c \<or>
          e = GetRouterPrefix c \<or> e = NewAPIRouter c \<or> e = RegisterBeanCollection c \<or>
          e = RegisterProperties c \<or> e = RegisterEntityProvider c \<or> e = SetContext c)"
  unfolding registration_script_def set_append Un_iff
  by (elim disjE; (drule in_provider_entity_events in_registration_events
        in_provider_registration_events)?; auto split: if_splits)

lemma in_type_checking_events:
  "e \<in> set (type_checking_events E) \<Longrightarrow> e = TypeChecking \<or> (\<exists>x. e = LoggerWarning x)"
  by (auto simp: type_checking_events_def split: option.splits TypeCheckingMode.splits)

lemma in_wiring_script:
  "e \<in> set (wiring_script E) \<Longrightarrow>
     e \<in> set (registration_script E) \<or> e \<in> set (type_checking_events E) \<or>
     e = LoadProperties \<or> e = InitIocContainer \<or> e = InjectDependenciesForAppEntities \<or>
     e = SetAllFilePaths \<or> e = ValidateEntityProviders \<or> (\<exists>p. e = ProviderInit p)"
  by (auto simp: wiring_script_def)

lemma in_controller_events:
  "e \<in> set (controller_events E) \<Longrightarrow>
     e = GetControllerInstances \<or>
     (\<exists>c. e = RegisterRoutes c \<or> e = GetRouter c \<or> e = IncludeRouter c \<or>
          e = RegisterMiddlewares c)"
  by (auto simp: controller_events_def)

lemma in_life_cycle_events_Init:
  "e \<in> set (life_cycle_events E Init h) \<Longrightarrow>
     e = GetSingletonComponentInstances \<or> (\<exists>c. e = FinishInitializationCycle c)"
  by (auto simp: life_cycle_events_def hook_def)

lemma in_startup_script:
  "e \<in> set (startup_script E) \<Longrightarrow>
     e \<in> set (wiring_script E) \<or> e \<in> set (life_cycle_events E Init (wiring_script E)) \<or>
     e \<in> set (controller_events E) \<or> e = UvicornRun"
  by (auto simp: startup_script_def wiring_script_def split: if_splits)

lemma startup_script_no_destruction_hook:
  "e \<in> set (startup_script E) \<Longrightarrow> \<not> is_destruction_hook e"
  by (auto dest!: in_startup_script in_wiring_script in_registration_script
      in_type_checking_events in_life_cycle_events_Init in_controller_events)

lemma try_block_subset: "set (trace (fst (try_block E init_app_state))) \<subseteq> set (startup_script E)"
  by (rule set_mono_prefix) (rule try_block_prefix)

subsection \<open>Loops of calls, call by call\<close>

lemma steps_append:
  "steps (as @ bs) s =
     (case steps as s of (s', None) \<Rightarrow> steps bs s' | (s', Some e) \<Rightarrow> (s', Some e))"
  by (induction as arbitrary: s) (auto split: prod.splits option.splits)

lemma for_each_calls_return:
  assumes "\<forall>i<length xs. raises E (trace s @ map f (take i xs)) (f (xs ! i)) = None"
  shows "for_each (\<lambda>x. call E (f x)) xs s = (s\<lparr>trace := trace s @ map f xs\<rparr>, None)"
  using assms
proof (induction xs arbitrary: s)
  case Nil
  then show ?case by (simp add: for_each_def)
next
  case (Cons x xs)
  from Cons.prems have x: "raises E (trace s) (f x) = None"
    by (auto dest: spec [of _ 0])
  have "\<forall>i<length xs.
          raises E (trace (s\<lparr>trace := trace s @ [f x]\<rparr>) @ map f (take i xs)) (f (xs ! i)) = None"
  proof (intro allI impI)
    fix i assume "i < length xs"
    then have "Suc i < length (x # xs)" by simp
    from Cons.prems [rule_format, OF this] 
    show "raises E (trace (s\<lparr>trace := trace s @ [f x]\<rparr>) @ map f (take i xs)) (f (xs ! i)) = None"
      by simp
  qed
  from Cons.IH [OF this] show ?case
    using x by (simp add: for_each_def call_def)
qed

lemma for_each_calls_raise:
  assumes "\<forall>i<length xs. raises E (trace s @ map f (take i xs)) (f (xs ! i)) = None"
    and "raises E (trace s @ map f xs) (f c) = Some e"
  shows "for_each (\<lambda>x. call E (f x)) (xs @ c # ys) s =
           (s\<lparr>trace := trace s @ map f xs @ [f c]\<rparr>, Some e)"
proof -
  have "for_each (\<lambda>x. call E (f x)) xs s = (s\<lparr>trace := trace s @ map f xs\<rparr>, None)"
    using assms(1) by (rule for_each_calls_return)
  then show ?thesis
    using assms(2) by (simp add: for_each_def steps_append call_def)
qed

subsection \<open>Order of calls\<close>

lemma preceded_append:
  "preceded P Q (a @ b) \<longleftrightarrow> preceded P Q a \<and> ((\<exists>x\<in>set a. P x) \<or> preceded P Q b)"
  by (induction a) auto

lemma preceded_none: "\<forall>x\<in>set t. \<not> Q x \<Longrightarrow> preceded P Q t"
  by (induction t) auto

lemma preceded_prefix: "prefix a b \<Longrightarrow> preceded P Q b \<Longrightarrow> preceded P Q a"
  by (auto simp: prefix_def preceded_append)

lemma never_after_append:
  "never_after P Q (a @ b) \<longleftrightarrow>
     never_after P Q a \<and> never_after P Q b \<and> ((\<exists>x\<in>set a. P x) \<longrightarrow> (\<forall>y\<in>set b. \<not> Q y))"
  by (induction a) (auto simp: list_ex_iff)

lemma never_after_no_first: "\<forall>x\<in>set t. \<not> P x \<Longrightarrow> never_after P Q t"
  by (induction t) auto

lemma never_after_no_second: "\<forall>x\<in>set t. \<not> Q x \<Longrightarrow> never_after P Q t"
  by (induction t) (auto simp: list_ex_iff)

lemma never_after_prefix: "prefix a b \<Longrightarrow> never_after P Q b \<Longrightarrow> never_after P Q a"
  by (auto simp: prefix_def never_after_append)

text \<open>What the two predicates say about positions in the trace.\<close>

lemma preceded_nth:
  "preceded P Q t \<Longrightarrow> i < length t \<Longrightarrow> Q (t ! i) \<Longrightarrow> \<exists>j\<le>i. P (t ! j)"
proof (induction t arbitrary: i)
  case Nil
  then show ?case by simp
next
  case (Cons e t)
  show ?case
  proof (cases "P e")
    case True
    then have "P ((e # t) ! 0)" by simp
    then show ?thesis by blast
  next
    case False
    with Cons.prems obtain k where k: "i = Suc k"
      by (cases i) auto
    with Cons.prems False have "preceded P Q t" "k < length t" "Q (t ! k)"
      by simp_all
    from Cons.IH [OF this] obtain j where "j \<le> k" "P (t ! j)" by blast
    then have "Suc j \<le> i" "P ((e # t) ! Suc j)" using k by simp_all
    then show ?thesis by blast
  qed
qed

lemma never_after_nth:
  "never_after P Q t \<Longrightarrow> i < j \<Longrightarrow> j < length t \<Longrightarrow> P (t ! i) \<Longrightarrow> \<not> Q (t ! j)"
proof (induction t arbitrary: i j)
  case Nil
  then show ?case by simp
next
  case (Cons e t)
  from Cons.prems(2) obtain j' where j: "j = Suc j'" by (cases j) auto
  show ?case
  proof (cases i)
    case 0
    with Cons.prems have "\<not> list_ex Q t" by simp
    moreover have "t ! j' \<in> set t" using Cons.prems(3) j by simp
    ultimately show ?thesis using j by (auto simp: list_ex_iff)
  next
    case (Suc i')
    with Cons.prems j have "never_after P Q t" "i' < j'" "j' < length t" "P (t ! i')"
      by simp_all
    from Cons.IH [OF this] show ?thesis using j by simp
  qed
qed

lemma prefix_reach:
  assumes "prefix T (A @ B)" and "e \<in> set T" and "e \<notin> set A"
  obtains T' where "T = A @ T'" and "prefix T' B"
  using assms by (auto simp: prefix_append dest: set_mono_prefix)

subsection \<open>The trace of a run\<close>

lemma in_run_trace:
  assumes "e \<in> set (trace (fst (run E)))"
  shows "e \<in> set (trace (fst (try_block E init_app_state))) \<or>
         e = GetSingletonComponentInstances \<or> (\<exists>c. e = FinishDestructionCycle c)"
proof -
  obtain cs where "trace (fst (run E)) =
           trace (fst (try_block E init_app_state)) @
           GetSingletonComponentInstances # map FinishDestructionCycle cs"
    by (rule run_trace)
  with assms show ?thesis by auto
qed

text \<open>A property of the startup script that prefixes inherit holds of the whole run,
  when the calls of the destroy phase do not matter to it.\<close>

lemma run_preceded:
  assumes "preceded P Q (startup_script E)"
    and "\<not> Q GetSingletonComponentInstances" and "\<And>c. \<not> Q (FinishDestructionCycle c)"
  shows "preceded P Q (trace (fst (run E)))"
proof -
  obtain cs where t: "trace (fst (run E)) =
           trace (fst (try_block E init_app_state)) @
           GetSingletonComponentInstances # map FinishDestructionCycle cs"
    by (rule run_trace)
  have "preceded P Q (trace (fst (try_block E init_app_state)))"
    using try_block_prefix assms(1) by (rule preceded_prefix)
  moreover have "preceded P Q (GetSingletonComponentInstances # map FinishDestructionCycle cs)"
    using assms(2,3) by (intro preceded_none) auto
  ultimately show ?thesis by (simp add: t preceded_append)
qed

lemma run_never_after:
  assumes "never_after P Q (startup_script E)"
    and "\<not> Q GetSingletonComponentInstances" and "\<And>c. \<not> Q (FinishDestructionCycle c)"
  shows "never_after P Q (trace (fst (run E)))"
proof -
  obtain cs where t: "trace (fst (run E)) =
           trace (fst (try_block E init_app_state)) @
           GetSingletonComponentInstances # map FinishDestructionCycle cs"
    by (rule run_trace)
  have "never_after P Q (trace (fst (try_block E init_app_state)))"
    using try_block_prefix assms(1) by (rule never_after_prefix)
  moreover have "\<forall>y\<in>set (GetSingletonComponentInstances # map FinishDestructionCycle cs). \<not> Q y"
    using assms(2,3) by auto
  ultimately show ?thesis
    by (simp only: t never_after_append never_after_no_second) simp
qed

lemma startup_script_gate:
  "startup_script E = registration_script E @ TypeChecking # after_gate E"
  by (simp add: after_gate_def startup_script_def wiring_script_def type_checking_events_def)

lemma in_after_gate:
  "e \<in> set (after_gate E) \<Longrightarrow>
     (\<exists>x. e = LoggerWarning x) \<or>
     e = LoadProperties \<or> e = InitIocContainer \<or> e = InjectDependenciesForAppEntities \<or>
     e = SetAllFilePaths \<or> e = ValidateEntityProviders \<or> (\<exists>p. e = ProviderInit p) \<or>
     e = GetSingletonComponentInstances \<or> (\<exists>c. e = FinishInitializationCycle c) \<or>
     e \<in> set (controller_events E) \<or> e = UvicornRun"
  by (auto simp: after_gate_def startup_script_def wiring_script_def type_checking_events_def
      life_cycle_events_def hook_def
      split: if_splits option.splits TypeCheckingMode.splits)

text \<open>A run in which a call later than the registrations is made has made all the
  calls of the registration script, and the type checking call.\<close>

lemma run_past_gate:
  assumes "e \<in> set (trace (fst (run E)))"
    and "e \<notin> set (registration_script E)"
    and "e \<noteq> GetSingletonComponentInstances" and "\<And>c. e \<noteq> FinishDestructionCycle c"
  obtains T' cs where
    "trace (fst (run E)) =
       registration_script E @ T' @
       GetSingletonComponentInstances # map FinishDestructionCycle cs"
    and "prefix T' (TypeChecking # after_gate E)"
    and "T' \<noteq> []"
proof -
  obtain cs where t: "trace (fst (run E)) =
           trace (fst (try_block E init_app_state)) @
           GetSingletonComponentInstances # map FinishDestructionCycle cs"
    by (rule run_trace)
  with assms(1,3,4) have e: "e \<in> set (trace (fst (try_block E init_app_state)))"
    by auto
  have "prefix (trace (fst (try_block E init_app_state)))
          (registration_script E @ TypeChecking # after_gate E)"
    using try_block_prefix [of E] by (simp add: startup_script_gate)
  from this e assms(2) obtain T' where
    T': "trace (fst (try_block E init_app_state)) = registration_script E @ T'"
    and p: "prefix T' (TypeChecking # after_gate E)"
    by (rule prefix_reach)
  from e assms(2) T' have "T' \<noteq> []" by auto
  with t T' p that show thesis by simp
qed

subsection \<open>Registration calls of the scripts\<close>

lemma filter_entity_events:
  "filter is_registration_call (entity_events E c) =
     map (\<lambda>k. registration_call k c)
         (filter (issubclass E c) [Component, RestController, BeanCollection, Properties])"
  by (simp add: entity_events_def registration_call_def)

lemma filter_registration_events:
  "filter is_registration_call (registration_events E classes) = classified E classes"
  by (induction classes)
     (simp_all add: registration_events_def classified_def filter_entity_events)

lemma classified_append: "classified E (a @ b) = classified E a @ classified E b"
  by (simp add: classified_def)

lemma filter_provider_entity_events:
  "filter is_registration_call
     (concat (map (\<lambda>p. GetEntities p # registration_events E (ret_get_entities E p)) ps)) =
   classified E (concat (map (ret_get_entities E) ps))"
  by (induction ps) (simp_all add: classified_append filter_registration_events, simp add: classified_def)

lemma filter_registration_script:
  "filter is_registration_call (registration_script E) =
     classified E (provider_entities E) @ classified E (ret_get_classes E)"
proof -
  have "filter is_registration_call (provider_registration_events ps) = []" for ps
    by (induction ps) (simp_all add: provider_registration_events_def)
  then show ?thesis
    by (simp add: registration_script_def provider_entity_events_def provider_entities_def
        filter_provider_entity_events filter_registration_events)
qed

lemma filter_after_gate: "filter is_registration_call (TypeChecking # after_gate E) = []"
  by (auto simp: filter_empty_conv dest!: in_after_gate in_controller_events)

lemma filter_startup_script:
  "filter is_registration_call (startup_script E) =
     classified E (provider_entities E) @ classified E (ret_get_classes E)"
  unfolding startup_script_gate filter_append filter_registration_script filter_after_gate
  by simp

lemma filter_run:
  "filter P (trace (fst (run E))) =
     filter P (trace (fst (try_block E init_app_state)))"
  if "\<not> P GetSingletonComponentInstances" and "\<And>c. \<not> P (FinishDestructionCycle c)"
proof -
  obtain cs where t: "trace (fst (run E)) =
           trace (fst (try_block E init_app_state)) @
           GetSingletonComponentInstances # map FinishDestructionCycle cs"
    by (rule run_trace)
  have "filter P (map FinishDestructionCycle cs) = []"
    using that(2) by (simp add: filter_empty_conv)
  then show ?thesis using that(1) by (simp add: t)
qed

lemma filter_past_gate:
  assumes "e \<in> set (trace (fst (run E)))"
    and "e \<notin> set (registration_script E)"
    and "e \<noteq> GetSingletonComponentInstances" and "\<And>c. e \<noteq> FinishDestructionCycle c"
    and "filter P (TypeChecking # after_gate E) = []"
    and "\<not> P GetSingletonComponentInstances" and "\<And>c. \<not> P (FinishDestructionCycle c)"
  shows "filter P (trace (fst (run E))) = filter P (registration_script E)"
proof -
  from assms(1-4) obtain T' cs where t: "trace (fst (run E)) =
       registration_script E @ T' @
       GetSingletonComponentInstances # map FinishDestructionCycle cs"
    and p: "prefix T' (TypeChecking # after_gate E)"
    by (rule run_past_gate)
  from p have "prefix (filter P T') (filter P (TypeChecking # after_gate E))"
    by (rule filter_mono_prefix)
  then have "filter P T' = []"
    unfolding assms(5) by simp
  moreover have "filter P (map FinishDestructionCycle cs) = []"
    using assms(7) by (simp add: filter_empty_conv)
  ultimately show ?thesis
    using assms(6) by (simp add: t)
qed

lemma registration_calls_past_gate:
  assumes "e \<in> set (trace (fst (run E)))"
    and "e \<notin> set (registration_script E)"
    and "e \<noteq> GetSingletonComponentInstances" and "\<And>c. e \<noteq> FinishDestructionCycle c"
  shows "filter is_registration_call (trace (fst (run E))) =
           classified E (provider_entities E) @ classified E (ret_get_classes E)"
  using filter_past_gate [of e E is_registration_call, OF assms filter_after_gate]
  by (simp add: filter_registration_script)

subsection \<open>Provider registrations of the scripts\<close>

lemma filter_provider_registration_events:
  "filter is_provider_registration (provider_registration_events ps) =
     provider_registration_events ps"
  by (induction ps) (simp_all add: provider_registration_events_def)

lemma filter_provider_registration_script:
  "filter is_provider_registration (registration_script E) =
     provider_registration_events (entity_providers E)"
proof -
  have "filter is_provider_registration (provider_entity_events E) = []"
    by (auto simp: filter_empty_conv dest!: in_provider_entity_events)
  moreover have "filter is_provider_registration (registration_events E cl) = []" for cl
    by (auto simp: filter_empty_conv dest!: in_registration_events)
  ultimately show ?thesis
    by (simp add: registration_script_def filter_provider_registration_events)
qed

lemma filter_provider_registration_after_gate:
  "filter is_provider_registration (TypeChecking # after_gate E) = []"
  by (auto simp: filter_empty_conv dest!: in_after_gate in_controller_events)

lemma provider_registrations_past_gate:
  assumes "e \<in> set (trace (fst (run E)))"
    and "e \<notin> set (registration_script E)"
    and "e \<noteq> GetSingletonComponentInstances" and "\<And>c. e \<noteq> FinishDestructionCycle c"
  shows "filter is_provider_registration (trace (fst (run E))) =
           provider_registration_events (entity_providers E)"
  using filter_past_gate [of e E is_provider_registration, OF assms
      filter_provider_registration_after_gate]
  by (simp add: filter_provider_registration_script)

subsection \<open>Calls that returned\<close>

lemma calls_returned_Nil: "calls_returned E []"
  by (simp add: calls_returned_def)

lemma calls_returnedD:
  "calls_returned E t \<Longrightarrow> t = h @ e # rest \<Longrightarrow> \<not> is_warning e \<Longrightarrow> raises E h e = None"
  unfolding calls_returned_def by (elim allE impE) assumption+

lemma calls_returned_snoc:
  "calls_returned E (t @ [e]) \<longleftrightarrow>
     calls_returned E t \<and> (is_warning e \<or> raises E t e = None)"
proof
  assume a: "calls_returned E (t @ [e])"
  have "calls_returned E t"
    unfolding calls_returned_def
  proof (intro allI impI)
    fix h x rest
    assume "t = h @ x # rest" and w: "\<not> is_warning x"
    then have "t @ [e] = h @ x # (rest @ [e])" by simp
    from a this w show "raises E h x = None" by (rule calls_returnedD)
  qed
  moreover have "is_warning e \<or> raises E t e = None"
  proof (cases "is_warning e")
    case True
    then show ?thesis ..
  next
    case False
    have "t @ [e] = t @ e # []" by simp
    from a this False have "raises E t e = None" by (rule calls_returnedD)
    then show ?thesis ..
  qed
  ultimately show "calls_returned E t \<and> (is_warning e \<or> raises E t e = None)" ..
next
  assume a: "calls_returned E t \<and> (is_warning e \<or> raises E t e = None)"
  show "calls_returned E (t @ [e])"
    unfolding calls_returned_def
  proof (intro allI impI)
    fix h x rest
    assume eq: "t @ [e] = h @ x # rest" and w: "\<not> is_warning x"
    show "raises E h x = None"
    proof (cases rest rule: rev_cases)
      case Nil
      with eq have "t @ [e] = h @ [x]" by simp
      then have "t = h" "e = x" by simp_all
      with a w show ?thesis by simp
    next
      case (snoc rest' y)
      with eq have "t @ [e] = (h @ x # rest') @ [y]" by simp
      then have "t = h @ x # rest'" by (simp only: append1_eq_conv)
      with a w show ?thesis by (auto elim: calls_returnedD)
    qed
  qed
qed

lemma calls_returned_appendD: "calls_returned E (a @ b) \<Longrightarrow> calls_returned E a"
proof (induction b rule: rev_induct)
  case Nil
  then show ?case by simp
next
  case (snoc x xs)
  from snoc.prems have "calls_returned E ((a @ xs) @ [x])" by simp
  then have "calls_returned E (a @ xs)" unfolding calls_returned_snoc by simp
  then show ?case by (rule snoc.IH)
qed

lemma calls_returned_at:
  "calls_returned E (h @ e # rest) \<Longrightarrow> \<not> is_warning e \<Longrightarrow> raises E h e = None"
  by (rule calls_returnedD [OF _ refl])

lemma records_returnsI:
  assumes "\<And>s. calls_returned E (trace s) \<Longrightarrow>
             \<exists>Y. trace (fst (f s)) = trace s @ Y \<and>
                 calls_returned E (trace s @ butlast Y) \<and>
                 (snd (f s) = None \<longrightarrow> calls_returned E (trace s @ Y))"
  shows "records_returns E f"
  using assms unfolding records_returns_def by blast

lemma records_returnsE:
  assumes "records_returns E f" and "calls_returned E (trace s)"
  obtains Y where "trace (fst (f s)) = trace s @ Y"
    and "calls_returned E (trace s @ butlast Y)"
    and "snd (f s) = None \<longrightarrow> calls_returned E (trace s @ Y)"
  using assms unfolding records_returns_def by blast

lemma records_returnsI2:
  assumes "\<And>s. calls_returned E (trace s) \<Longrightarrow>
             trace (fst (f s)) = trace s @ Y s \<and>
             calls_returned E (trace s @ butlast (Y s)) \<and>
             (snd (f s) = None \<longrightarrow> calls_returned E (trace s @ Y s))"
  shows "records_returns E f"
  unfolding records_returns_def
proof (intro allI impI)
  fix s :: app assume "calls_returned E (trace s)"
  from assms [OF this]
  show "\<exists>Y. trace (fst (f s)) = trace s @ Y \<and>
        calls_returned E (trace s @ butlast Y) \<and>
        (snd (f s) = None \<longrightarrow> calls_returned E (trace s @ Y))"
    by (rule exI)
qed

lemma records_returns_call: "records_returns E (call E ev)"
  by (rule records_returnsI2 [where Y = "\<lambda>s. [ev]"])
     (simp add: call_def calls_returned_snoc)

text \<open>An action that leaves the trace as it is.\<close>

lemma records_returns_silent:
  assumes "\<And>s. trace (fst (f s)) = trace s"
  shows "records_returns E f"
  by (rule records_returnsI2 [where Y = "\<lambda>s. []"]) (simp add: assms)

lemma records_returns_skip: "records_returns E skip"
  by (rule records_returns_silent) (simp add: skip_def)

lemma records_returns_steps_Nil: "records_returns E (steps [])"
  by (rule records_returns_silent) simp

lemma records_returns_steps_Cons:
  assumes f: "records_returns E f" and fs: "records_returns E (steps fs)"
  shows "records_returns E (steps (f # fs))"
proof (rule records_returnsI)
  fix s :: app assume s: "calls_returned E (trace s)"
  obtain s1 r1 where fs1: "f s = (s1, r1)" by (cases "f s")
  from f s obtain Y1 where Y1: "trace (fst (f s)) = trace s @ Y1"
    and b1: "calls_returned E (trace s @ butlast Y1)"
    and n1: "snd (f s) = None \<longrightarrow> calls_returned E (trace s @ Y1)"
    by (rule records_returnsE)
  show "\<exists>Y. trace (fst (steps (f # fs) s)) = trace s @ Y \<and>
        calls_returned E (trace s @ butlast Y) \<and>
        (snd (steps (f # fs) s) = None \<longrightarrow> calls_returned E (trace s @ Y))"
  proof (cases r1)
    case (Some e)
    then have "steps (f # fs) s = f s" using fs1 by simp
    with Y1 b1 n1 have "trace (fst (steps (f # fs) s)) = trace s @ Y1 \<and>
        calls_returned E (trace s @ butlast Y1) \<and>
        (snd (steps (f # fs) s) = None \<longrightarrow> calls_returned E (trace s @ Y1))"
      by simp
    then show ?thesis by (rule exI)
  next
    case None
    then have st: "steps (f # fs) s = steps fs s1" using fs1 by simp
    from None fs1 n1 Y1 have s1: "calls_returned E (trace s1)" "trace s1 = trace s @ Y1"
      by simp_all
    from fs s1(1) obtain Y2 where Y2: "trace (fst (steps fs s1)) = trace s1 @ Y2"
      and b2: "calls_returned E (trace s1 @ butlast Y2)"
      and n2: "snd (steps fs s1) = None \<longrightarrow> calls_returned E (trace s1 @ Y2)"
      by (rule records_returnsE)
    have "calls_returned E (trace s @ butlast (Y1 @ Y2))"
    proof (cases "Y2 = []")
      case True
      then show ?thesis using b1 by simp
    next
      case False
      then show ?thesis using b2 s1(2) by (simp add: butlast_append)
    qed
    then have "trace (fst (steps (f # fs) s)) = trace s @ (Y1 @ Y2) \<and>
        calls_returned E (trace s @ butlast (Y1 @ Y2)) \<and>
        (snd (steps (f # fs) s) = None \<longrightarrow> calls_returned E (trace s @ (Y1 @ Y2)))"
      using st Y2 n2 s1(2) by simp
    then show ?thesis by (rule exI)
  qed
qed

lemma records_returns_for_each:
  assumes "\<And>x. records_returns E (f x)"
  shows "records_returns E (for_each f xs)"
  unfolding for_each_def
proof (induction xs)
  case Nil
  show ?case unfolding list.map by (rule records_returns_steps_Nil)
next
  case (Cons x xs)
  show ?case unfolding list.map by (rule records_returns_steps_Cons [OF assms Cons])
qed

lemma records_returns_dep:
  assumes "\<And>x. records_returns E (F x)"
  shows "records_returns E (\<lambda>s. F (h s) s)"
  using assms unfolding records_returns_def by blast

lemma records_returns_if:
  "records_returns E f \<Longrightarrow> records_returns E g \<Longrightarrow> records_returns E (if b then f else g)"
  by simp

lemma configure_logging_records: "records_returns E (configure_logging E)"
proof -
  have l: "configure_logging E = (if \<not> log_file_path E then skip else call E LoggerAdd)"
    by (rule ext) (simp add: configure_logging_def skip_def)
  show ?thesis
    unfolding l by (intro records_returns_if records_returns_skip records_returns_call)
qed

lemma scan_classes_for_project_records: "records_returns E (scan_classes_for_project E)"
  unfolding scan_classes_for_project_def
  by (intro records_returns_steps_Cons records_returns_steps_Nil records_returns_call
      records_returns_silent) simp

lemma handlers_records:
  "records_returns E (handle_register_component E c)"
  "records_returns E (handle_register_rest_controller E c)"
  "records_returns E (handle_register_bean_collection E c)"
  "records_returns E (handle_register_properties E c)"
  unfolding handle_register_component_def handle_register_rest_controller_def
    handle_register_bean_collection_def handle_register_properties_def
  by (intro records_returns_steps_Cons records_returns_steps_Nil records_returns_call)+

lemma register_app_entities_records: "records_returns E (register_app_entities E classes)"
  unfolding register_app_entities_def
proof (rule records_returns_for_each)
  fix c
  show "records_returns E
     (for_each (\<lambda>(target_cls, handler). if \<not> issubclass E c target_cls then skip else handler c)
        (classes_with_handlers E))"
    unfolding classes_with_handlers_def for_each_def list.map prod.case
    by (intro records_returns_steps_Cons records_returns_steps_Nil records_returns_if
        records_returns_skip handlers_records)
qed

lemma register_all_entities_from_providers_records:
  "records_returns E (register_all_entities_from_providers E)"
  unfolding register_all_entities_from_providers_def
  by (intro records_returns_for_each records_returns_steps_Cons records_returns_steps_Nil
      records_returns_call register_app_entities_records)

lemma register_entity_providers_records:
  "records_returns E (register_entity_providers E ps)"
  unfolding register_entity_providers_def
  by (intro records_returns_for_each records_returns_steps_Cons records_returns_steps_Nil
      records_returns_call)

lemma init_providers_records: "records_returns E (init_providers E ps)"
  unfolding init_providers_def
  by (intro records_returns_for_each records_returns_call)

lemma gate_policy_records:
  "records_returns E
     (\<lambda>s. case ret_type_checking E of
             None \<Rightarrow> (s, None)
           | Some optional_error \<Rightarrow>
               (case type_checking_mode E of
                  Strict \<Rightarrow> (s, Some optional_error)
                | Basic \<Rightarrow> (s\<lparr>trace := trace s @ [LoggerWarning optional_error]\<rparr>, None)
                | OtherMode m \<Rightarrow> (s, None)))"
  by (rule records_returnsI2 [where Y = "\<lambda>s. case ret_type_checking E of
             None \<Rightarrow> []
           | Some optional_error \<Rightarrow>
               (case type_checking_mode E of
                  Strict \<Rightarrow> []
                | Basic \<Rightarrow> [LoggerWarning optional_error]
                | OtherMode m \<Rightarrow> [])"])
     (simp add: calls_returned_snoc split: option.split TypeCheckingMode.split)

lemma type_checking_records: "records_returns E (type_checking E)"
  unfolding type_checking_def
  by (intro records_returns_steps_Cons records_returns_steps_Nil records_returns_call
      gate_policy_records)

lemma hook_records:
  "records_returns E
     (case life_cycle of Init \<Rightarrow> call E (FinishInitializationCycle c)
                       | Destruction \<Rightarrow> call E (FinishDestructionCycle c))"
  by (cases life_cycle) (simp_all add: records_returns_call)

lemma handle_singleton_components_life_cycle_records:
  "records_returns E (handle_singleton_components_life_cycle E life_cycle)"
  unfolding handle_singleton_components_life_cycle_def
proof (intro records_returns_steps_Cons records_returns_steps_Nil records_returns_call)
  show "records_returns E
     (\<lambda>s. for_each
            (\<lambda>c. case life_cycle of Init \<Rightarrow> call E (FinishInitializationCycle c)
                 | Destruction \<Rightarrow> call E (FinishDestructionCycle c))
            (ret_get_singleton_component_instances E (trace s)) s)"
    by (rule records_returns_dep) (intro records_returns_for_each hook_records)
qed

lemma init_app_records: "records_returns E (init_app E)"
  unfolding init_app_def
proof (intro records_returns_steps_Cons records_returns_steps_Nil records_returns_call
    scan_classes_for_project_records register_all_entities_from_providers_records
    register_entity_providers_records type_checking_records init_providers_records
    handle_singleton_components_life_cycle_records)
  show "records_returns E (\<lambda>s. register_app_entities E (scanned_classes s) s)"
    by (rule records_returns_dep) (rule register_app_entities_records)
qed

lemma init_controllers_records: "records_returns E (init_controllers E)"
  unfolding init_controllers_def
  by (intro records_returns_steps_Cons records_returns_steps_Nil records_returns_for_each
      records_returns_call)

lemma try_block_records: "records_returns E (try_block E)"
  unfolding try_block_def
proof (intro records_returns_steps_Cons records_returns_steps_Nil configure_logging_records
    init_app_records init_controllers_records)
  have l: "(\<lambda>s. if server_enabled E then run_server E s else (s, None)) =
           (if server_enabled E then call E UvicornRun else skip)"
    by (rule ext) (simp add: run_server_def skip_def)
  show "records_returns E (\<lambda>s. if server_enabled E then run_server E s else (s, None))"
    unfolding l by (intro records_returns_if records_returns_call records_returns_skip)
qed

text \<open>In the \<open>try\<close> body every call but the last returned; so did every call of a
  run that is followed by a call of the body.\<close>

lemma try_block_calls_returned:
  "calls_returned E (butlast (trace (fst (try_block E init_app_state))))"
proof -
  have "calls_returned E (trace init_app_state)"
    by (simp add: trace_init_app_state calls_returned_Nil)
  with try_block_records obtain Y where
    "trace (fst (try_block E init_app_state)) = trace init_app_state @ Y"
    "calls_returned E (trace init_app_state @ butlast Y)"
    by (rule records_returnsE)
  then show ?thesis by (simp add: trace_init_app_state)
qed

lemma append_Cons_eq_appendD:
  assumes "pre @ e # post = T @ D" and "e \<notin> set D"
  obtains post' where "T = pre @ e # post'"
proof -
  from assms(1) consider us where "pre = T @ us" "us @ e # post = D"
    | us where "pre @ us = T" "e # post = us @ D"
    by (auto simp: append_eq_append_conv2)
  then show thesis
  proof cases
    case 1
    with assms(2) show ?thesis by auto
  next
    case 2
    show ?thesis
    proof (cases us)
      case Nil
      with 2 assms(2) show ?thesis by auto
    next
      case (Cons u us')
      with 2 have "T = pre @ e # us'" by auto
      then show ?thesis by (rule that)
    qed
  qed
qed

lemma run_calls_returned_before:
  assumes "trace (fst (run E)) = pre @ e # post"
    and "e \<noteq> GetSingletonComponentInstances" and "\<And>c. e \<noteq> FinishDestructionCycle c"
  shows "calls_returned E pre"
proof -
  obtain cs where t: "trace (fst (run E)) =
           trace (fst (try_block E init_app_state)) @
           GetSingletonComponentInstances # map FinishDestructionCycle cs"
    by (rule run_trace)
  have n: "e \<notin> set (GetSingletonComponentInstances # map FinishDestructionCycle cs)"
    using assms(2,3) by auto
  have eq: "pre @ e # post =
      trace (fst (try_block E init_app_state)) @
      GetSingletonComponentInstances # map FinishDestructionCycle cs"
    using assms(1) t by simp
  from eq n obtain post' where
    T: "trace (fst (try_block E init_app_state)) = pre @ e # post'"
    by (rule append_Cons_eq_appendD)
  have "butlast (pre @ e # post') = pre @ butlast (e # post')"
    by (simp add: butlast_append)
  with try_block_calls_returned [of E] T show ?thesis
    by (auto dest: calls_returned_appendD)
qed

lemma returned_before:
  assumes "calls_returned E pre" and "x \<in> set pre" and "\<not> is_warning x"
  shows "\<exists>h h'. pre = h @ x # h' \<and> raises E h x = None"
proof -
  from assms(2) obtain h h' where "pre = h @ x # h'"
    by (auto dest: split_list)
  with assms(1,3) show ?thesis
    by (auto dest: calls_returned_at)
qed

lemma preceded_split:
  assumes "preceded P Q (pre @ x # post)" and "Q x" and "\<not> P x"
  shows "\<exists>y\<in>set pre. P y"
  using assms by (auto simp: preceded_append)

section \<open>The claims\<close>

lemmas run_defs = run_def try_block_def init_app_def init_controllers_def run_server_def
  handle_singleton_components_life_cycle_def type_checking_def init_providers_def
  register_entity_providers_def register_all_entities_from_providers_def
  register_app_entities_def classes_with_handlers_def handle_register_component_def
  handle_register_rest_controller_def handle_register_bean_collection_def
  handle_register_properties_def scan_classes_for_project_def configure_logging_def
  for_each_def call_def skip_def init_app_state_def

text \<open>
  Claim C1, as stated, fails where it says that the phase calls the destruction hook on
  every instance: the loop of the phase ends at the first hook that raises. With the
  instances 10, 11, 12, of which the destruction hook of 11 raises, the run calls the
  destruction hooks of 10 and 11 only.
\<close>

theorem destroy_phase_on_every_instance_counterexample:
  "instances_after hook_fails_env (trace (fst (try_block hook_fails_env init_app_state))) =
     [10, 11, 12] \<and>
   filter is_destruction_hook (trace (fst (run hook_fails_env))) =
     [FinishDestructionCycle 10, FinishDestructionCycle 11]"
  by (simp add: run_defs hook_fails_env_def demo_env_def instances_after_def)

text \<open>
  Claim C1, amended. In every run, whatever the outcome of the \<open>try\<close> body, the
  destroy phase is executed exactly once: the trace of \<open>run\<close> is the trace of the body
  followed by one destroy phase, and the body never calls a destruction hook. The phase
  asks the container for its singleton component instances and calls the destruction
  hook on them in the order reported: on every one of them when the phase returns
  normally, and otherwise on those up to the call that raises.
\<close>

theorem destroy_phase_runs_exactly_once:
  "(\<exists>cs. prefix cs (instances_after E (trace (fst (try_block E init_app_state)))) \<and>
         trace (fst (run E)) =
           trace (fst (try_block E init_app_state)) @
           GetSingletonComponentInstances # map FinishDestructionCycle cs) \<and>
   filter is_destruction_hook (trace (fst (try_block E init_app_state))) = [] \<and>
   (snd (handle_singleton_components_life_cycle E Destruction
           (fst (try_block E init_app_state))) = None \<longrightarrow>
      filter is_destruction_hook (trace (fst (run E))) =
        map FinishDestructionCycle
            (instances_after E (trace (fst (try_block E init_app_state)))))"
proof (intro conjI impI)
  let ?s = "fst (try_block E init_app_state)"
  show "\<exists>cs. prefix cs (instances_after E (trace ?s)) \<and>
         trace (fst (run E)) =
           trace ?s @ GetSingletonComponentInstances # map FinishDestructionCycle cs"
    by (rule run_trace [of E]) blast
  show none: "filter is_destruction_hook (trace ?s) = []"
    using try_block_subset [of E] startup_script_no_destruction_hook [of _ E]
    by (auto simp: filter_empty_conv)
  assume ok: "snd (handle_singleton_components_life_cycle E Destruction ?s) = None"
  have "handle_singleton_components_life_cycle E Destruction ?s =
       (?s\<lparr>trace := trace ?s @ life_cycle_events E Destruction (trace ?s)\<rparr>, None)"
  proof (cases E Destruction ?s rule: life_cycle_cases)
    case complete
    then show ?thesis .
  next
    case (raised Y ev e)
    with ok show ?thesis by simp
  qed
  moreover obtain s r where "try_block E init_app_state = (s, r)"
    by (cases "try_block E init_app_state")
  ultimately have "trace (fst (run E)) = trace ?s @ life_cycle_events E Destruction (trace ?s)"
    by (simp add: run_def)
  then show "filter is_destruction_hook (trace (fst (run E))) =
        map FinishDestructionCycle (instances_after E (trace ?s))"
    by (simp add: none life_cycle_events_def hook_def filter_map comp_def)
qed

theorem destroy_phase_runs_exactly_once_witness:
  "snd (handle_singleton_components_life_cycle demo_env Destruction
          (fst (try_block demo_env init_app_state))) = None \<and>
   filter is_destruction_hook (trace (fst (run demo_env))) =
     [FinishDestructionCycle 10, FinishDestructionCycle 11, FinishDestructionCycle 12]"
proof -
  have h: "snd (handle_singleton_components_life_cycle demo_env Destruction
          (fst (try_block demo_env init_app_state))) = None"
    by (simp add: run_defs demo_env_def)
  from destroy_phase_runs_exactly_once [of demo_env] h show ?thesis
    by (simp add: instances_after_def demo_env_def)
qed

text \<open>
  Claim C2, as stated, fails: the teardown loop has no exception handler. With three
  instances 10, 11, 12 of which the destruction hook of 11 raises, the hook of 12 is
  never called and the exception leaves \<open>run\<close>.
\<close>

theorem teardown_failure_swallowed_counterexample:
  "instances_after hook_fails_env (trace (fst (try_block hook_fails_env init_app_state))) =
     [10, 11, 12] \<and>
   FinishDestructionCycle 12 \<notin> set (trace (fst (run hook_fails_env))) \<and>
   snd (run hook_fails_env) = Some ''hook failed''"
  by (simp add: run_defs hook_fails_env_def demo_env_def instances_after_def)

text \<open>
  Claim C2, amended. During the destroy phase the destruction hooks are called in the
  order the container reports the instances. If the hooks of the instances \<open>xs\<close> return
  and the hook of the next instance \<open>c\<close> raises \<open>e\<close>, then no hook of the remaining
  instances \<open>ys\<close> is called: the trace of the run ends with the call on \<open>c\<close>, and
  \<open>e\<close> leaves the loop and \<open>run\<close>.
\<close>

theorem teardown_stops_at_first_failure:
  assumes "T = trace (fst (try_block E init_app_state))"
    and "raises E T GetSingletonComponentInstances = None"
    and "instances_after E T = xs @ c # ys"
    and "\<forall>i<length xs.
           raises E (T @ GetSingletonComponentInstances # map FinishDestructionCycle (take i xs))
                    (FinishDestructionCycle (xs ! i)) = None"
    and "raises E (T @ GetSingletonComponentInstances # map FinishDestructionCycle xs)
                  (FinishDestructionCycle c) = Some e"
  shows "trace (fst (run E)) =
           T @ GetSingletonComponentInstances # map FinishDestructionCycle xs @
           [FinishDestructionCycle c] \<and>
         snd (run E) = Some e"
proof -
  obtain s r where t: "try_block E init_app_state = (s, r)"
    by (cases "try_block E init_app_state")
  with assms(1) have T: "T = trace s" by simp
  define s1 where "s1 = s\<lparr>trace := trace s @ [GetSingletonComponentInstances]\<rparr>"
  have a: "\<forall>i<length xs. raises E (trace s1 @ map FinishDestructionCycle (take i xs))
                    (FinishDestructionCycle (xs ! i)) = None"
    using assms(4) by (simp add: s1_def T)
  have b: "raises E (trace s1 @ map FinishDestructionCycle xs) (FinishDestructionCycle c) = Some e"
    using assms(5) by (simp add: s1_def T)
  have loop: "for_each (\<lambda>x. call E (FinishDestructionCycle x)) (xs @ c # ys) s1 =
           (s1\<lparr>trace := trace s1 @ map FinishDestructionCycle xs @ [FinishDestructionCycle c]\<rparr>,
            Some e)"
    using a b by (rule for_each_calls_raise)
  have "handle_singleton_components_life_cycle E Destruction s =
          (s1\<lparr>trace := trace s1 @ map FinishDestructionCycle xs @ [FinishDestructionCycle c]\<rparr>,
           Some e)"
    using assms(2,3) loop
    by (simp add: handle_singleton_components_life_cycle_def call_def T s1_def
        instances_after_def)
  then show ?thesis
    by (simp add: run_def t s1_def T)
qed

theorem teardown_stops_at_first_failure_witness:
  "instances_after hook_fails_env (trace (fst (try_block hook_fails_env init_app_state))) =
     [10] @ 11 # [12] \<and>
   trace (fst (run hook_fails_env)) =
     trace (fst (try_block hook_fails_env init_app_state)) @
     [GetSingletonComponentInstances, FinishDestructionCycle 10, FinishDestructionCycle 11] \<and>
   snd (run hook_fails_env) = Some ''hook failed''"
proof -
  let ?T = "trace (fst (try_block hook_fails_env init_app_state))"
  have h2: "raises hook_fails_env ?T GetSingletonComponentInstances = None"
    by (simp add: hook_fails_env_def demo_env_def)
  have h3: "instances_after hook_fails_env ?T = [10] @ 11 # [12]"
    by (simp add: instances_after_def hook_fails_env_def demo_env_def)
  have h4: "\<forall>i<length [10::nat].
           raises hook_fails_env
             (?T @ GetSingletonComponentInstances # map FinishDestructionCycle (take i [10]))
             (FinishDestructionCycle ([10] ! i)) = None"
    by (simp add: hook_fails_env_def demo_env_def)
  have h5: "raises hook_fails_env
              (?T @ GetSingletonComponentInstances # map FinishDestructionCycle [10])
              (FinishDestructionCycle 11) = Some ''hook failed''"
    by (simp add: hook_fails_env_def demo_env_def)
  from teardown_stops_at_first_failure [OF refl h2 h3 h4 h5] h3 show ?thesis
    by simp
qed

text \<open>
  Claim C3, as stated, fails where it says that the type checking error is what the
  caller receives: an exception of the \<open>finally\<close> clause replaces the one of the
  body. Under \<open>Strict\<close>, with a report and instances of which one destruction hook
  raises, the body raises the reported error and \<open>run\<close> raises the hook's exception.
\<close>

theorem strict_error_propagated_counterexample:
  "type_checking_mode strict_hook_fails_env = Strict \<and>
   ret_type_checking strict_hook_fails_env = Some ''type error'' \<and>
   TypeChecking \<in> set (trace (fst (run strict_hook_fails_env))) \<and>
   snd (try_block strict_hook_fails_env init_app_state) = Some ''type error'' \<and>
   snd (run strict_hook_fails_env) = Some ''hook failed''"
  by (simp add: run_defs strict_hook_fails_env_def hook_fails_env_def demo_env_def)

text \<open>
  Claim C3, amended. With severity \<open>Strict\<close> and a type checking service that reports
  an error, no run calls \<open>load_properties\<close>, and the run ends with the destroy phase.
  When the type checking call was made and returned its report, the body of \<open>run\<close>
  raises the reported error; after the destroy phase \<open>run\<close> raises that error if the
  phase returned normally, and the exception of the phase if a call of the phase raised.
\<close>

theorem strict_gate_aborts_before_properties:
  assumes "type_checking_mode E = Strict" and "ret_type_checking E = Some err"
  shows "LoadProperties \<notin> set (trace (fst (run E))) \<and>
         (\<exists>cs. prefix cs (instances_after E (trace (fst (try_block E init_app_state)))) \<and>
               trace (fst (run E)) =
                 trace (fst (try_block E init_app_state)) @
                 GetSingletonComponentInstances # map FinishDestructionCycle cs) \<and>
         (TypeChecking \<in> set (trace (fst (run E))) \<and>
          (\<forall>t. raises E t TypeChecking = None) \<longrightarrow>
            try_block E init_app_state =
              (\<lparr>trace = registration_script E @ [TypeChecking],
                scanned_classes = ret_get_classes E\<rparr>, Some err) \<and>
            snd (run E) =
              (case snd (handle_singleton_components_life_cycle E Destruction
                           (fst (try_block E init_app_state))) of
                 None \<Rightarrow> Some err
               | Some e \<Rightarrow> Some e))"
proof (intro conjI impI)
  have out: "type_checking_outcome E = Some err"
    using assms by (simp add: type_checking_outcome_def)
  have script: "startup_script E = registration_script E @ [TypeChecking]"
    using assms by (simp add: startup_script_def type_checking_outcome_def
        type_checking_events_def)
  show "LoadProperties \<notin> set (trace (fst (run E)))"
  proof
    assume "LoadProperties \<in> set (trace (fst (run E)))"
    then have "LoadProperties \<in> set (trace (fst (try_block E init_app_state)))"
      by (auto dest: in_run_trace)
    then have "LoadProperties \<in> set (startup_script E)"
      using try_block_subset [of E] by auto
    then show False
      by (auto simp: script dest: in_registration_script)
  qed
  show "\<exists>cs. prefix cs (instances_after E (trace (fst (try_block E init_app_state)))) \<and>
               trace (fst (run E)) =
                 trace (fst (try_block E init_app_state)) @
                 GetSingletonComponentInstances # map FinishDestructionCycle cs"
    by (rule run_trace [of E]) blast
  assume h: "TypeChecking \<in> set (trace (fst (run E))) \<and>
          (\<forall>t. raises E t TypeChecking = None)"
  then have tc: "TypeChecking \<in> set (trace (fst (try_block E init_app_state)))"
    by (auto dest: in_run_trace)
  show body: "try_block E init_app_state =
       (\<lparr>trace = registration_script E @ [TypeChecking],
         scanned_classes = ret_get_classes E\<rparr>, Some err)"
  proof (cases E rule: try_block_cases)
    case complete
    then show ?thesis by (simp add: out script)
  next
    case (raised Y ev e)
    from raised(4) have "Y @ [ev] = registration_script E @ [TypeChecking] \<or>
        prefix (Y @ [ev]) (registration_script E)"
      unfolding script prefix_snoc .
    moreover have "\<not> prefix (Y @ [ev]) (registration_script E)"
    proof
      assume "prefix (Y @ [ev]) (registration_script E)"
      then have "set (Y @ [ev]) \<subseteq> set (registration_script E)"
        by (rule set_mono_prefix)
      then have "TypeChecking \<in> set (registration_script E)"
        using tc raised(1) by auto
      then show False by (auto dest: in_registration_script)
    qed
    ultimately have "ev = TypeChecking" by simp
    with raised(2) h show ?thesis by simp
  qed
  show "snd (run E) =
              (case snd (handle_singleton_components_life_cycle E Destruction
                           (fst (try_block E init_app_state))) of
                 None \<Rightarrow> Some err
               | Some e \<Rightarrow> Some e)"
    by (simp add: run_def body split: prod.split option.split)
qed

theorem strict_gate_aborts_before_properties_witness:
  "type_checking_mode strict_env = Strict \<and>
   ret_type_checking strict_env = Some ''type error'' \<and>
   TypeChecking \<in> set (trace (fst (run strict_env))) \<and>
   (\<forall>t. raises strict_env t TypeChecking = None) \<and>
   snd (handle_singleton_components_life_cycle strict_env Destruction
          (fst (try_block strict_env init_app_state))) = None \<and>
   LoadProperties \<notin> set (trace (fst (run strict_env))) \<and>
   snd (run strict_env) = Some ''type error''"
proof -
  have h1: "type_checking_mode strict_env = Strict"
    by (simp add: strict_env_def)
  have h2: "ret_type_checking strict_env = Some ''type error''"
    by (simp add: strict_env_def demo_env_def)
  have h3: "TypeChecking \<in> set (trace (fst (run strict_env)))"
    by (simp add: run_defs strict_env_def demo_env_def)
  have h4: "\<forall>t. raises strict_env t TypeChecking = None"
    by (simp add: strict_env_def demo_env_def)
  have h5: "snd (handle_singleton_components_life_cycle strict_env Destruction
          (fst (try_block strict_env init_app_state))) = None"
    by (simp add: run_defs strict_env_def demo_env_def)
  note r = strict_gate_aborts_before_properties [OF h1 h2]
  from r have a: "LoadProperties \<notin> set (trace (fst (run strict_env)))"
    by (rule conjunct1)
  from r [THEN conjunct2, THEN conjunct2] h3 h4
  have "snd (run strict_env) =
              (case snd (handle_singleton_components_life_cycle strict_env Destruction
                           (fst (try_block strict_env init_app_state))) of
                 None \<Rightarrow> Some ''type error''
               | Some e \<Rightarrow> Some e)"
    by simp
  with h5 have b: "snd (run strict_env) = Some ''type error''"
    by simp
  show ?thesis
    by (intro conjI h1 h2 h3 h4 h5 a b)
qed

text \<open>The calls that come before a router is included.\<close>

lemma include_router_preceded:
  "preceded (\<lambda>e. e = InjectDependenciesForAppEntities) is_include_router
     (trace (fst (run E))) \<and>
   (\<forall>x \<in> set (instances_after E
               (takeWhile (\<lambda>e. e \<noteq> GetSingletonComponentInstances) (trace (fst (run E))))).
      preceded (\<lambda>e. e = FinishInitializationCycle x) is_include_router
        (trace (fst (run E))))"
proof (intro conjI ballI)
  let ?W = "wiring_script E"
  let ?L = "life_cycle_events E Init ?W"
  have noW: "\<forall>e\<in>set ?W. \<not> is_include_router e"
    by (auto dest!: in_wiring_script in_registration_script in_type_checking_events)
  have noL: "\<forall>e\<in>set ?L. \<not> is_include_router e"
    by (auto dest!: in_life_cycle_events_Init)
  have getW: "GetSingletonComponentInstances \<notin> set ?W"
    by (auto dest!: in_wiring_script in_registration_script in_type_checking_events)
  show "preceded (\<lambda>e. e = InjectDependenciesForAppEntities) is_include_router
          (trace (fst (run E)))"
  proof (rule run_preceded)
    show "preceded (\<lambda>e. e = InjectDependenciesForAppEntities) is_include_router
            (startup_script E)"
    proof (cases "type_checking_outcome E \<noteq> None")
      case True
      then have "\<forall>e\<in>set (startup_script E). \<not> is_include_router e"
        by (auto simp: startup_script_def dest!: in_registration_script in_type_checking_events)
      then show ?thesis by (rule preceded_none)
    next
      case False
      have "preceded (\<lambda>e. e = InjectDependenciesForAppEntities) is_include_router ?W"
        using noW by (rule preceded_none)
      moreover have "InjectDependenciesForAppEntities \<in> set ?W"
        by (simp add: wiring_script_def)
      ultimately show ?thesis
        using False by (auto simp: startup_script_def preceded_append)
    qed
  qed simp_all
next
  let ?W = "wiring_script E"
  let ?L = "life_cycle_events E Init ?W"
  let ?t = "trace (fst (run E))"
  let ?T = "trace (fst (try_block E init_app_state))"
  fix x
  assume x: "x \<in> set (instances_after E
               (takeWhile (\<lambda>e. e \<noteq> GetSingletonComponentInstances) ?t))"
  have noW: "\<forall>e\<in>set ?W. \<not> is_include_router e"
    by (auto dest!: in_wiring_script in_registration_script in_type_checking_events)
  have noL: "\<forall>e\<in>set ?L. \<not> is_include_router e"
    by (auto dest!: in_life_cycle_events_Init)
  have getW: "\<forall>e\<in>set ?W. e \<noteq> GetSingletonComponentInstances"
    by (auto dest!: in_wiring_script in_registration_script in_type_checking_events)
  obtain cs where t: "?t = ?T @ GetSingletonComponentInstances # map FinishDestructionCycle cs"
    by (rule run_trace)
  show "preceded (\<lambda>e. e = FinishInitializationCycle x) is_include_router ?t"
  proof (cases "\<exists>e\<in>set ?T. is_include_router e")
    case False
    then have "\<forall>e\<in>set ?t. \<not> is_include_router e"
      by (auto simp: t)
    then show ?thesis by (rule preceded_none)
  next
    case True
    then obtain e where e: "e \<in> set ?T" "is_include_router e" by blast
    have p: "prefix ?T (startup_script E)" by (rule try_block_prefix)
    with e have "e \<in> set (startup_script E)" by (auto dest: set_mono_prefix)
    with e(2) have go: "type_checking_outcome E = None"
      by (cases "type_checking_outcome E")
         (auto simp: startup_script_def dest!: in_registration_script in_type_checking_events)
    then have script: "startup_script E =
        (?W @ ?L) @ controller_events E @ (if server_enabled E then [UvicornRun] else [])"
      by (simp add: startup_script_def)
    have "e \<notin> set (?W @ ?L)" using e(2) noW noL by auto
    with p e(1) obtain T' where T': "?T = (?W @ ?L) @ T'"
      unfolding script by (rule prefix_reach)
    have "takeWhile (\<lambda>e. e \<noteq> GetSingletonComponentInstances) ?t = ?W"
      using getW by (simp add: t T' life_cycle_events_def)
    with x have "FinishInitializationCycle x \<in> set ?L"
      by (simp add: life_cycle_events_def hook_def)
    then show ?thesis
      using noW noL by (auto simp: t T' preceded_append preceded_none)
  qed
qed

text \<open>
  Claim C4. Whenever a run includes a controller's router into the HTTP application,
  every call made before has returned normally; among these calls are
  \<open>inject_dependencies_for_app_entities\<close> and the initialization hook of every
  singleton component instance that the container reported for the initialization
  phase (at its first \<open>get_singleton_component_instances\<close> call of the run). So no
  route table is bound before dependency injection has completed and every singleton
  instance has been initialized.
\<close>

theorem routes_bound_after_injection_and_init:
  assumes "trace (fst (run E)) = pre @ IncludeRouter c # post"
  shows "calls_returned E pre \<and>
         (\<exists>h h'. pre = h @ InjectDependenciesForAppEntities # h' \<and>
                  raises E h InjectDependenciesForAppEntities = None) \<and>
         (\<forall>x \<in> set (instances_after E
                     (takeWhile (\<lambda>e. e \<noteq> GetSingletonComponentInstances)
                                (trace (fst (run E))))).
            \<exists>h h'. pre = h @ FinishInitializationCycle x # h' \<and>
                    raises E h (FinishInitializationCycle x) = None)"
proof (intro conjI ballI)
  show r: "calls_returned E pre"
    using assms by (rule run_calls_returned_before) simp_all
  have "preceded (\<lambda>e. e = InjectDependenciesForAppEntities) is_include_router
          (pre @ IncludeRouter c # post)"
    using include_router_preceded [of E] assms by simp
  then have "\<exists>y\<in>set pre. y = InjectDependenciesForAppEntities"
    by (rule preceded_split) simp_all
  then have "InjectDependenciesForAppEntities \<in> set pre" by simp
  with r show "\<exists>h h'. pre = h @ InjectDependenciesForAppEntities # h' \<and>
                  raises E h InjectDependenciesForAppEntities = None"
    by (rule returned_before) simp
next
  fix x
  assume x: "x \<in> set (instances_after E
                     (takeWhile (\<lambda>e. e \<noteq> GetSingletonComponentInstances)
                                (trace (fst (run E)))))"
  have r: "calls_returned E pre"
    using assms by (rule run_calls_returned_before) simp_all
  from include_router_preceded [of E] x
  have "preceded (\<lambda>e. e = FinishInitializationCycle x) is_include_router
          (trace (fst (run E)))"
    by blast
  then have "preceded (\<lambda>e. e = FinishInitializationCycle x) is_include_router
          (pre @ IncludeRouter c # post)"
    using assms by simp
  then have "\<exists>y\<in>set pre. y = FinishInitializationCycle x"
    by (rule preceded_split) simp_all
  then have "FinishInitializationCycle x \<in> set pre" by simp
  with r show "\<exists>h h'. pre = h @ FinishInitializationCycle x # h' \<and>
                    raises E h (FinishInitializationCycle x) = None"
    by (rule returned_before) simp
qed

theorem routes_bound_after_injection_and_init_witness:
  "trace (fst (run demo_env)) =
     take 28 (trace (fst (run demo_env))) @ IncludeRouter 20 #
     drop 29 (trace (fst (run demo_env))) \<and>
   instances_after demo_env
     (takeWhile (\<lambda>e. e \<noteq> GetSingletonComponentInstances) (trace (fst (run demo_env)))) =
     [10, 11, 12] \<and>
   (\<exists>h h'. take 28 (trace (fst (run demo_env))) =
              h @ InjectDependenciesForAppEntities # h' \<and>
            raises demo_env h InjectDependenciesForAppEntities = None) \<and>
   (\<exists>h h'. take 28 (trace (fst (run demo_env))) = h @ FinishInitializationCycle 12 # h' \<and>
            raises demo_env h (FinishInitializationCycle 12) = None)"
proof -
  have h: "trace (fst (run demo_env)) =
     take 28 (trace (fst (run demo_env))) @ IncludeRouter 20 #
     drop 29 (trace (fst (run demo_env)))"
    by (simp add: run_defs demo_env_def)
  have i: "instances_after demo_env
     (takeWhile (\<lambda>e. e \<noteq> GetSingletonComponentInstances) (trace (fst (run demo_env)))) =
     [10, 11, 12]"
    by (simp add: instances_after_def demo_env_def)
  note r = routes_bound_after_injection_and_init [OF h]
  from r [THEN conjunct2, THEN conjunct2] i
  have "\<exists>h h'. take 28 (trace (fst (run demo_env))) = h @ FinishInitializationCycle 12 # h' \<and>
            raises demo_env h (FinishInitializationCycle 12) = None"
    by simp
  then show ?thesis
    by (intro conjI h i r [THEN conjunct2, THEN conjunct1])
qed

text \<open>
  Claim C5. In every run the registration calls made on the container are, in order, an
  initial part of: the registrations due for the entities contributed by the providers
  (provider by provider), followed by the registrations due for the scanned classes. So
  a registration for a scanned class is made only when every registration for every
  provider-contributed entity has been made. When the run gets as far as the type
  checking call, all these registrations have been made.
\<close>

theorem provider_entities_registered_first:
  "prefix (filter is_registration_call (trace (fst (run E))))
          (classified E (provider_entities E) @ classified E (ret_get_classes E)) \<and>
   (TypeChecking \<in> set (trace (fst (run E))) \<longrightarrow>
      filter is_registration_call (trace (fst (run E))) =
        classified E (provider_entities E) @ classified E (ret_get_classes E))"
proof (intro conjI impI)
  have "prefix (filter is_registration_call (trace (fst (try_block E init_app_state))))
          (filter is_registration_call (startup_script E))"
    using try_block_prefix by (rule filter_mono_prefix)
  then show "prefix (filter is_registration_call (trace (fst (run E))))
          (classified E (provider_entities E) @ classified E (ret_get_classes E))"
    by (simp add: filter_run filter_startup_script)
  assume "TypeChecking \<in> set (trace (fst (run E)))"
  moreover have "TypeChecking \<notin> set (registration_script E)"
    by (auto dest: in_registration_script)
  ultimately show "filter is_registration_call (trace (fst (run E))) =
        classified E (provider_entities E) @ classified E (ret_get_classes E)"
    by (rule registration_calls_past_gate) simp_all
qed

theorem provider_entities_registered_first_witness:
  "TypeChecking \<in> set (trace (fst (run demo_env))) \<and>
   classified demo_env (provider_entities demo_env) =
     [RegisterComponent 5, RegisterProperties 4] \<and>
   classified demo_env (ret_get_classes demo_env) =
     [RegisterComponent 1, RegisterComponent 2, RegisterController 2] \<and>
   filter is_registration_call (trace (fst (run demo_env))) =
     [RegisterComponent 5, RegisterProperties 4,
      RegisterComponent 1, RegisterComponent 2, RegisterController 2]"
proof -
  have h: "TypeChecking \<in> set (trace (fst (run demo_env)))"
    by (simp add: run_defs demo_env_def)
  have p: "classified demo_env (provider_entities demo_env) =
     [RegisterComponent 5, RegisterProperties 4]"
    by (simp add: classified_def provider_entities_def registration_call_def demo_env_def)
  have l: "classified demo_env (ret_get_classes demo_env) =
     [RegisterComponent 1, RegisterComponent 2, RegisterController 2]"
    by (simp add: classified_def registration_call_def demo_env_def)
  from provider_entities_registered_first [of demo_env] h p l show ?thesis
    by simp
qed

text \<open>
  Claim C6, as stated, fails: \<open>__init_app\<close> calls \<open>_register_entity_providers\<close> after
  \<open>_register_app_entities(self.scanned_classes)\<close>. With provider 7 and the scanned
  component class 1 (contributed by no provider), class 1 is registered before provider 7
  is registered and given the context.
\<close>

theorem providers_registered_before_local_entities_counterexample:
  "entity_providers demo_env = [7] \<and>
   ret_get_entities demo_env 7 = [5, 4] \<and>
   ret_get_classes demo_env = [1, 2, 3] \<and>
   take 13 (trace (fst (run demo_env))) =
     [LoggerAdd, ScanClassesForFilePaths, GetClasses, GetEntities 7,
      RegisterComponent 5, RegisterProperties 4,
      RegisterComponent 1, RegisterComponent 2, RegisterController 2, GetRouterPrefix 2,
      NewAPIRouter 2,
      RegisterEntityProvider 7, SetContext 7] \<and>
   \<not> preceded is_provider_registration (\<lambda>e. e = RegisterComponent 1)
       (trace (fst (run demo_env)))"
  by (simp add: run_defs demo_env_def)

text \<open>
  Claim C6, amended. Every configured entity provider is registered with the container
  and handed the container only after all entities, those contributed by providers and
  those discovered locally, have been classified and registered, and before the type
  checking call: in every run no registration call for an entity is made after a
  provider has been registered, no provider is registered after the type checking
  call, and a run that gets as far as the type checking call has registered every
  provider and handed it the container, in the order of the configured providers.
\<close>

theorem providers_registered_after_local_entities:
  "never_after is_provider_registration is_registration_call (trace (fst (run E))) \<and>
   never_after (\<lambda>e. e = TypeChecking) is_provider_registration (trace (fst (run E))) \<and>
   (TypeChecking \<in> set (trace (fst (run E))) \<longrightarrow>
      filter is_provider_registration (trace (fst (run E))) =
        provider_registration_events (entity_providers E))"
proof (intro conjI impI)
  let ?A = "(if log_file_path E then [LoggerAdd] else []) @
     [ScanClassesForFilePaths, GetClasses] @
     provider_entity_events E @
     registration_events E (ret_get_classes E)"
  let ?B = "provider_registration_events (entity_providers E) @ TypeChecking # after_gate E"
  have script: "startup_script E = ?A @ ?B"
    by (simp add: startup_script_gate registration_script_def)
  have A: "\<forall>e\<in>set ?A. \<not> is_provider_registration e"
    by (auto dest!: in_provider_entity_events in_registration_events split: if_splits)
  have B: "\<forall>e\<in>set ?B. \<not> is_registration_call e"
    by (auto dest!: in_provider_registration_events in_after_gate in_controller_events)
  show "never_after is_provider_registration is_registration_call (trace (fst (run E)))"
  proof (rule run_never_after)
    show "never_after is_provider_registration is_registration_call (startup_script E)"
      unfolding script never_after_append
      using A B by (simp add: never_after_no_first never_after_no_second)
  qed simp_all
  have R: "\<forall>e\<in>set (registration_script E). e \<noteq> TypeChecking"
    by (auto dest!: in_registration_script)
  have G: "\<forall>e\<in>set (TypeChecking # after_gate E). \<not> is_provider_registration e"
    by (auto dest!: in_after_gate in_controller_events)
  show "never_after (\<lambda>e. e = TypeChecking) is_provider_registration (trace (fst (run E)))"
  proof (rule run_never_after)
    show "never_after (\<lambda>e. e = TypeChecking) is_provider_registration (startup_script E)"
      unfolding startup_script_gate never_after_append
      using R G by (simp add: never_after_no_first never_after_no_second list_ex_iff)
  qed simp_all
  assume "TypeChecking \<in> set (trace (fst (run E)))"
  moreover have "TypeChecking \<notin> set (registration_script E)"
    using R by blast
  ultimately show "filter is_provider_registration (trace (fst (run E))) =
        provider_registration_events (entity_providers E)"
    by (rule provider_registrations_past_gate) simp_all
qed

theorem providers_registered_after_local_entities_witness:
  "TypeChecking \<in> set (trace (fst (run demo_env))) \<and>
   never_after is_provider_registration is_registration_call (trace (fst (run demo_env))) \<and>
   never_after (\<lambda>e. e = TypeChecking) is_provider_registration (trace (fst (run demo_env))) \<and>
   filter is_provider_registration (trace (fst (run demo_env))) =
     [RegisterEntityProvider 7, SetContext 7]"
proof -
  have h: "TypeChecking \<in> set (trace (fst (run demo_env)))"
    by (simp add: run_defs demo_env_def)
  have p: "provider_registration_events (entity_providers demo_env) =
     [RegisterEntityProvider 7, SetContext 7]"
    by (simp add: provider_registration_events_def demo_env_def)
  from providers_registered_after_local_entities [of demo_env] h p show ?thesis
    by simp
qed

text \<open>The order of validation, provider hooks and registrations.\<close>

lemma provider_init_order:
  "preceded (\<lambda>e. e = ValidateEntityProviders) is_provider_init (trace (fst (run E))) \<and>
   preceded (\<lambda>e. e = InitIocContainer) (\<lambda>e. e = ValidateEntityProviders)
     (trace (fst (run E))) \<and>
   preceded (\<lambda>e. e = InjectDependenciesForAppEntities) (\<lambda>e. e = ValidateEntityProviders)
     (trace (fst (run E))) \<and>
   never_after (\<lambda>e. e = ValidateEntityProviders) is_registration_call
     (trace (fst (run E))) \<and>
   (ValidateEntityProviders \<in> set (trace (fst (run E))) \<longrightarrow>
      filter is_registration_call (trace (fst (run E))) =
        classified E (provider_entities E) @ classified E (ret_get_classes E)) \<and>
   prefix (filter is_provider_init (trace (fst (run E))))
          (map ProviderInit (entity_providers E)) \<and>
   ((\<exists>e\<in>set (trace (fst (run E))). is_provider_init e) \<longrightarrow>
      filter is_provider_registration (trace (fst (run E))) =
        provider_registration_events (entity_providers E))"
proof (intro conjI impI)
  let ?R = "registration_script E @ type_checking_events E"
  let ?rest = "map ProviderInit (entity_providers E) @
           life_cycle_events E Init (wiring_script E) @
           controller_events E @
           (if server_enabled E then [UvicornRun] else [])"
  have abort: "startup_script E = ?R" if "type_checking_outcome E \<noteq> None"
    using that by (simp add: startup_script_def)
  have go: "startup_script E =
      ?R @ [LoadProperties, InitIocContainer, InjectDependenciesForAppEntities,
            SetAllFilePaths, ValidateEntityProviders] @ ?rest"
    if "type_checking_outcome E = None"
    using that by (simp add: startup_script_def wiring_script_def)
  have R1: "\<forall>e\<in>set ?R. \<not> is_provider_init e"
    by (auto dest!: in_registration_script in_type_checking_events)
  have R2: "\<forall>e\<in>set ?R. e \<noteq> ValidateEntityProviders"
    by (auto dest!: in_registration_script in_type_checking_events)
  show "preceded (\<lambda>e. e = ValidateEntityProviders) is_provider_init (trace (fst (run E)))"
  proof (rule run_preceded)
    show "preceded (\<lambda>e. e = ValidateEntityProviders) is_provider_init (startup_script E)"
    proof (cases "type_checking_outcome E")
      case None
      show ?thesis
        unfolding go [OF None] preceded_append using R1 by (simp add: preceded_none)
    next
      case (Some e)
      then show ?thesis using R1 by (simp add: abort preceded_none)
    qed
  qed simp_all
  show "preceded (\<lambda>e. e = InitIocContainer) (\<lambda>e. e = ValidateEntityProviders)
          (trace (fst (run E)))"
  proof (rule run_preceded)
    show "preceded (\<lambda>e. e = InitIocContainer) (\<lambda>e. e = ValidateEntityProviders)
            (startup_script E)"
    proof (cases "type_checking_outcome E")
      case None
      show ?thesis
        unfolding go [OF None] preceded_append using R2 by (simp add: preceded_none)
    next
      case (Some e)
      then show ?thesis using R2 by (simp add: abort preceded_none)
    qed
  qed simp_all
  show "preceded (\<lambda>e. e = InjectDependenciesForAppEntities)
          (\<lambda>e. e = ValidateEntityProviders) (trace (fst (run E)))"
  proof (rule run_preceded)
    show "preceded (\<lambda>e. e = InjectDependenciesForAppEntities)
            (\<lambda>e. e = ValidateEntityProviders) (startup_script E)"
    proof (cases "type_checking_outcome E")
      case None
      show ?thesis
        unfolding go [OF None] preceded_append using R2 by (simp add: preceded_none)
    next
      case (Some e)
      then show ?thesis using R2 by (simp add: abort preceded_none)
    qed
  qed simp_all
  have V: "\<forall>e\<in>set (registration_script E). e \<noteq> ValidateEntityProviders"
    by (auto dest!: in_registration_script)
  have G: "\<forall>e\<in>set (TypeChecking # after_gate E). \<not> is_registration_call e"
    by (auto dest!: in_after_gate in_controller_events)
  show "never_after (\<lambda>e. e = ValidateEntityProviders) is_registration_call
          (trace (fst (run E)))"
  proof (rule run_never_after)
    show "never_after (\<lambda>e. e = ValidateEntityProviders) is_registration_call
            (startup_script E)"
      unfolding startup_script_gate never_after_append
      using V G by (simp add: never_after_no_first never_after_no_second list_ex_iff)
  qed simp_all
  show "filter is_registration_call (trace (fst (run E))) =
        classified E (provider_entities E) @ classified E (ret_get_classes E)"
    if "ValidateEntityProviders \<in> set (trace (fst (run E)))"
    using that
  proof (rule registration_calls_past_gate)
    show "ValidateEntityProviders \<notin> set (registration_script E)" using V by blast
  qed simp_all
  have F: "filter is_provider_init ?R = []"
    using R1 by (simp only: filter_empty_conv)
  then have F': "filter is_provider_init (registration_script E) = []"
    "filter is_provider_init (type_checking_events E) = []"
    by simp_all
  have L: "filter is_provider_init (life_cycle_events E Init h) = []" for h
    by (auto simp: filter_empty_conv dest!: in_life_cycle_events_Init)
  have C: "filter is_provider_init (controller_events E) = []"
    by (auto simp: filter_empty_conv dest!: in_controller_events)
  have P: "filter is_provider_init (map ProviderInit ps) = map ProviderInit ps" for ps
    by (induction ps) simp_all
  have "prefix (filter is_provider_init (startup_script E))
          (map ProviderInit (entity_providers E))"
  proof (cases "type_checking_outcome E")
    case None
    show ?thesis
      unfolding go [OF None] filter_append F' L C P by simp
  next
    case (Some e)
    then show ?thesis by (simp add: abort F')
  qed
  moreover have "prefix (filter is_provider_init (trace (fst (try_block E init_app_state))))
          (filter is_provider_init (startup_script E))"
    using try_block_prefix by (rule filter_mono_prefix)
  ultimately show "prefix (filter is_provider_init (trace (fst (run E))))
          (map ProviderInit (entity_providers E))"
    by (simp add: filter_run)
  assume "\<exists>e\<in>set (trace (fst (run E))). is_provider_init e"
  then obtain e where e: "e \<in> set (trace (fst (run E)))" "is_provider_init e"
    by blast
  from e(1) show "filter is_provider_registration (trace (fst (run E))) =
        provider_registration_events (entity_providers E)"
  proof (rule provider_registrations_past_gate)
    show "e \<notin> set (registration_script E)"
      using e(2) by (auto dest!: in_registration_script)
  qed (use e(2) in auto)
qed

text \<open>
  Claim C7. Whenever a run calls a provider's \<open>provider_init\<close>, every call made
  before has returned normally, and \<open>validate_entity_providers\<close> is among them: the
  container has validated the providers. Whenever a run calls
  \<open>validate_entity_providers\<close>, every call made before has returned normally, among
  them \<open>init_ioc_container\<close> and \<open>inject_dependencies_for_app_entities\<close>, and all
  the registration calls for provider-contributed and scanned classes have been made
  (none is made after it). The \<open>provider_init\<close> calls are made in the order of the
  configured providers, which is the order in which the providers were registered.
\<close>

theorem provider_init_after_validation:
  "(\<forall>pre p post. trace (fst (run E)) = pre @ ProviderInit p # post \<longrightarrow>
      calls_returned E pre \<and>
      (\<exists>h h'. pre = h @ ValidateEntityProviders # h' \<and>
               raises E h ValidateEntityProviders = None)) \<and>
   (\<forall>pre post. trace (fst (run E)) = pre @ ValidateEntityProviders # post \<longrightarrow>
      calls_returned E pre \<and>
      (\<exists>h h'. pre = h @ InitIocContainer # h' \<and> raises E h InitIocContainer = None) \<and>
      (\<exists>h h'. pre = h @ InjectDependenciesForAppEntities # h' \<and>
               raises E h InjectDependenciesForAppEntities = None) \<and>
      filter is_registration_call pre =
        classified E (provider_entities E) @ classified E (ret_get_classes E)) \<and>
   never_after (\<lambda>e. e = ValidateEntityProviders) is_registration_call
     (trace (fst (run E))) \<and>
   prefix (filter is_provider_init (trace (fst (run E))))
          (map ProviderInit (entity_providers E)) \<and>
   ((\<exists>e\<in>set (trace (fst (run E))). is_provider_init e) \<longrightarrow>
      filter is_provider_registration (trace (fst (run E))) =
        provider_registration_events (entity_providers E))"
proof (intro conjI allI impI)
  note o = provider_init_order [of E]
  show "never_after (\<lambda>e. e = ValidateEntityProviders) is_registration_call
          (trace (fst (run E)))"
    using o by blast
  show "prefix (filter is_provider_init (trace (fst (run E))))
          (map ProviderInit (entity_providers E))"
    using o by blast
  show "filter is_provider_registration (trace (fst (run E))) =
        provider_registration_events (entity_providers E)"
    if "\<exists>e\<in>set (trace (fst (run E))). is_provider_init e"
    using o that by blast
next
  fix pre p post
  assume t: "trace (fst (run E)) = pre @ ProviderInit p # post"
  show r: "calls_returned E pre"
    using t by (rule run_calls_returned_before) simp_all
  have "preceded (\<lambda>e. e = ValidateEntityProviders) is_provider_init
          (pre @ ProviderInit p # post)"
    using provider_init_order [of E] t by simp
  then have "\<exists>y\<in>set pre. y = ValidateEntityProviders"
    by (rule preceded_split) simp_all
  then have "ValidateEntityProviders \<in> set pre" by simp
  with r show "\<exists>h h'. pre = h @ ValidateEntityProviders # h' \<and>
               raises E h ValidateEntityProviders = None"
    by (rule returned_before) simp
next
  fix pre post
  assume t: "trace (fst (run E)) = pre @ ValidateEntityProviders # post"
  note o = provider_init_order [of E]
  show r: "calls_returned E pre"
    using t by (rule run_calls_returned_before) simp_all
  have "preceded (\<lambda>e. e = InitIocContainer) (\<lambda>e. e = ValidateEntityProviders)
          (pre @ ValidateEntityProviders # post)"
    using o t by simp
  then have "\<exists>y\<in>set pre. y = InitIocContainer"
    by (rule preceded_split) simp_all
  then have "InitIocContainer \<in> set pre" by simp
  with r show "\<exists>h h'. pre = h @ InitIocContainer # h' \<and> raises E h InitIocContainer = None"
    by (rule returned_before) simp
  have "preceded (\<lambda>e. e = InjectDependenciesForAppEntities)
          (\<lambda>e. e = ValidateEntityProviders) (pre @ ValidateEntityProviders # post)"
    using o t by simp
  then have "\<exists>y\<in>set pre. y = InjectDependenciesForAppEntities"
    by (rule preceded_split) simp_all
  then have "InjectDependenciesForAppEntities \<in> set pre" by simp
  with r show "\<exists>h h'. pre = h @ InjectDependenciesForAppEntities # h' \<and>
               raises E h InjectDependenciesForAppEntities = None"
    by (rule returned_before) simp
  have "never_after (\<lambda>e. e = ValidateEntityProviders) is_registration_call
          (pre @ ValidateEntityProviders # post)"
    using o t by simp
  then have "\<forall>y\<in>set post. \<not> is_registration_call y"
    by (simp add: never_after_append list_ex_iff)
  then have "filter is_registration_call post = []"
    by (simp add: filter_empty_conv)
  moreover have "filter is_registration_call (trace (fst (run E))) =
        classified E (provider_entities E) @ classified E (ret_get_classes E)"
    using o t by simp
  ultimately show "filter is_registration_call pre =
        classified E (provider_entities E) @ classified E (ret_get_classes E)"
    by (simp add: t)
qed

theorem provider_init_after_validation_witness:
  "trace (fst (run demo_env)) =
     take 20 (trace (fst (run demo_env))) @ ProviderInit 7 #
     drop 21 (trace (fst (run demo_env))) \<and>
   calls_returned demo_env (take 20 (trace (fst (run demo_env)))) \<and>
   (\<exists>h h'. take 20 (trace (fst (run demo_env))) = h @ ValidateEntityProviders # h' \<and>
            raises demo_env h ValidateEntityProviders = None) \<and>
   (\<exists>e\<in>set (trace (fst (run demo_env))). is_provider_init e) \<and>
   filter is_provider_init (trace (fst (run demo_env))) = [ProviderInit 7] \<and>
   filter is_provider_registration (trace (fst (run demo_env))) =
     [RegisterEntityProvider 7, SetContext 7]"
proof -
  have h: "trace (fst (run demo_env)) =
     take 20 (trace (fst (run demo_env))) @ ProviderInit 7 #
     drop 21 (trace (fst (run demo_env)))"
    by (simp add: run_defs demo_env_def)
  have i: "ProviderInit 7 \<in> set (trace (fst (run demo_env)))"
    by (simp add: run_defs demo_env_def)
  then have j: "\<exists>e\<in>set (trace (fst (run demo_env))). is_provider_init e"
    by (rule rev_bexI) simp
  have p: "provider_registration_events (entity_providers demo_env) =
     [RegisterEntityProvider 7, SetContext 7]"
    by (simp add: provider_registration_events_def demo_env_def)
  have f: "filter is_provider_init (trace (fst (run demo_env))) = [ProviderInit 7]"
    by (simp add: run_defs demo_env_def)
  note r = provider_init_after_validation [of demo_env]
  from r [THEN conjunct1, rule_format, OF h]
  have a: "calls_returned demo_env (take 20 (trace (fst (run demo_env))))"
    and b: "\<exists>h h'. take 20 (trace (fst (run demo_env))) = h @ ValidateEntityProviders # h' \<and>
            raises demo_env h ValidateEntityProviders = None"
    by simp_all
  from r j p
  have c: "filter is_provider_registration (trace (fst (run demo_env))) =
     [RegisterEntityProvider 7, SetContext 7]"
    by simp
  show ?thesis
    by (intro conjI h a b j f c)
qed

subsection \<open>Counting registration calls\<close>









text \<open>
  Claim C9. With severity \<open>Basic\<close> and a type checking service that reports an error,
  the gate logs the report as a warning and returns normally. In a run in which no
  collaborator raises, the warning is logged right after the type checking call and
  \<open>load_properties\<close> follows; the run makes all the calls of the startup, up to the
  binding of the routes and, when the server is enabled, the start of the server; and
  \<open>run\<close> raises nothing.
\<close>

theorem basic_gate_warns_and_continues:
  assumes "type_checking_mode E = Basic" and "ret_type_checking E = Some err"
  shows "(raises E (trace s) TypeChecking = None \<longrightarrow>
            type_checking E s =
              (s\<lparr>trace := trace s @ [TypeChecking, LoggerWarning err]\<rparr>, None)) \<and>
         ((\<forall>t ev. raises E t ev = None) \<longrightarrow>
            snd (run E) = None \<and>
            trace (fst (run E)) =
              startup_script E @ life_cycle_events E Destruction (startup_script E) \<and>
            (\<exists>b. startup_script E =
                   registration_script E @
                   [TypeChecking, LoggerWarning err, LoadProperties] @ b) \<and>
            GetControllerInstances \<in> set (trace (fst (run E))) \<and>
            (server_enabled E \<longrightarrow> UvicornRun \<in> set (trace (fst (run E)))))"
proof (intro conjI impI)
  assume "raises E (trace s) TypeChecking = None"
  then show "type_checking E s =
              (s\<lparr>trace := trace s @ [TypeChecking, LoggerWarning err]\<rparr>, None)"
    using assms by (simp add: type_checking_def call_def)
next
  assume q: "\<forall>t ev. raises E t ev = None"
  have out: "type_checking_outcome E = None"
    using assms by (simp add: type_checking_outcome_def)
  have body: "try_block E init_app_state =
       (\<lparr>trace = startup_script E, scanned_classes = ret_get_classes E\<rparr>, None)"
  proof (cases E rule: try_block_cases)
    case complete
    then show ?thesis by (simp add: out)
  next
    case (raised Y ev e)
    with q show ?thesis by simp
  qed
  have td: "teardown_quiet E"
    using q by (simp add: teardown_quiet_def)
  show "snd (run E) = None"
    by (simp add: run_outcome_teardown_quiet(1) [OF td] body)
  show t: "trace (fst (run E)) =
              startup_script E @ life_cycle_events E Destruction (startup_script E)"
    by (simp add: run_outcome_teardown_quiet(2) [OF td] body)
  show "\<exists>b. startup_script E =
                   registration_script E @
                   [TypeChecking, LoggerWarning err, LoadProperties] @ b"
    using assms by (simp add: startup_script_def out wiring_script_def type_checking_events_def)
  show "GetControllerInstances \<in> set (trace (fst (run E)))"
    by (simp add: t startup_script_def out controller_events_def)
  show "UvicornRun \<in> set (trace (fst (run E)))" if "server_enabled E"
    using that by (simp add: t startup_script_def out)
qed

theorem basic_gate_warns_and_continues_witness:
  "type_checking_mode demo_env = Basic \<and>
   ret_type_checking demo_env = Some ''type error'' \<and>
   (\<forall>t ev. raises demo_env t ev = None) \<and>
   server_enabled demo_env \<and>
   type_checking demo_env init_app_state =
     (init_app_state\<lparr>trace := trace init_app_state @
                                  [TypeChecking, LoggerWarning ''type error'']\<rparr>, None) \<and>
   snd (run demo_env) = None \<and>
   UvicornRun \<in> set (trace (fst (run demo_env)))"
proof -
  have h1: "type_checking_mode demo_env = Basic"
    by (simp add: demo_env_def)
  have h2: "ret_type_checking demo_env = Some ''type error''"
    by (simp add: demo_env_def)
  have h3: "\<forall>t ev. raises demo_env t ev = None"
    by (simp add: demo_env_def)
  have h4: "server_enabled demo_env"
    by (simp add: demo_env_def)
  have h5: "raises demo_env (trace init_app_state) TypeChecking = None"
    using h3 by simp
  note r = basic_gate_warns_and_continues [OF h1 h2, of init_app_state]
  from r [THEN conjunct1] h5
  have g: "type_checking demo_env init_app_state =
     (init_app_state\<lparr>trace := trace init_app_state @
                                  [TypeChecking, LoggerWarning ''type error'']\<rparr>, None)"
    by (rule mp)
  from r [THEN conjunct2] h3
  have k: "snd (run demo_env) = None \<and>
            trace (fst (run demo_env)) =
              startup_script demo_env @
              life_cycle_events demo_env Destruction (startup_script demo_env) \<and>
            (\<exists>b. startup_script demo_env =
                   registration_script demo_env @
                   [TypeChecking, LoggerWarning ''type error'', LoadProperties] @ b) \<and>
            GetControllerInstances \<in> set (trace (fst (run demo_env))) \<and>
            (server_enabled demo_env \<longrightarrow> UvicornRun \<in> set (trace (fst (run demo_env))))"
    by (rule mp)
  from k have a: "snd (run demo_env) = None"
    by (rule conjunct1)
  from k have "server_enabled demo_env \<longrightarrow> UvicornRun \<in> set (trace (fst (run demo_env)))"
    by (elim conjE)
  from this h4 have u: "UvicornRun \<in> set (trace (fst (run demo_env)))"
    by (rule mp)
  show ?thesis
    by (intro conjI h1 h2 h3 h4 g a u)
qed

subsection \<open>The report of the type checking service and the rest of the run\<close>

lemma call_report: "call (E\<lparr>ret_type_checking := x\<rparr>) = call E"
  by (intro ext) (simp add: call_def)

lemma configure_logging_report:
  "configure_logging (E\<lparr>ret_type_checking := x\<rparr>) = configure_logging E"
  by (intro ext) (simp add: configure_logging_def call_report)

lemma scan_classes_for_project_report:
  "scan_classes_for_project (E\<lparr>ret_type_checking := x\<rparr>) = scan_classes_for_project E"
  by (simp add: scan_classes_for_project_def call_report)

lemma handlers_report:
  "handle_register_component (E\<lparr>ret_type_checking := x\<rparr>) = handle_register_component E"
  "handle_register_rest_controller (E\<lparr>ret_type_checking := x\<rparr>) =
     handle_register_rest_controller E"
  "handle_register_bean_collection (E\<lparr>ret_type_checking := x\<rparr>) =
     handle_register_bean_collection E"
  "handle_register_properties (E\<lparr>ret_type_checking := x\<rparr>) = handle_register_properties E"
  by (intro ext, simp add: handle_register_component_def
      handle_register_rest_controller_def handle_register_bean_collection_def
      handle_register_properties_def call_report)+

lemma classes_with_handlers_report:
  "classes_with_handlers (E\<lparr>ret_type_checking := x\<rparr>) = classes_with_handlers E"
  by (simp add: classes_with_handlers_def handlers_report)

lemma register_app_entities_report:
  "register_app_entities (E\<lparr>ret_type_checking := x\<rparr>) = register_app_entities E"
  by (intro ext) (simp add: register_app_entities_def classes_with_handlers_report)

lemma register_all_entities_from_providers_report:
  "register_all_entities_from_providers (E\<lparr>ret_type_checking := x\<rparr>) =
     register_all_entities_from_providers E"
  by (simp add: register_all_entities_from_providers_def call_report
      register_app_entities_report)

lemma register_entity_providers_report:
  "register_entity_providers (E\<lparr>ret_type_checking := x\<rparr>) = register_entity_providers E"
  by (intro ext) (simp add: register_entity_providers_def call_report)

lemma init_providers_report:
  "init_providers (E\<lparr>ret_type_checking := x\<rparr>) = init_providers E"
  by (intro ext) (simp add: init_providers_def call_report)

lemma handle_singleton_components_life_cycle_report:
  "handle_singleton_components_life_cycle (E\<lparr>ret_type_checking := x\<rparr>) =
     handle_singleton_components_life_cycle E"
  by (intro ext)
     (simp add: handle_singleton_components_life_cycle_def call_report
      cong: ComponentLifeCycle.case_cong)

lemma init_controllers_report:
  "init_controllers (E\<lparr>ret_type_checking := x\<rparr>) = init_controllers E"
  by (simp add: init_controllers_def call_report)

lemma run_server_report: "run_server (E\<lparr>ret_type_checking := x\<rparr>) = run_server E"
  by (simp add: run_server_def call_report)

lemma type_checking_other_mode:
  assumes "type_checking_mode E \<noteq> Strict" and "type_checking_mode E \<noteq> Basic"
  shows "type_checking (E\<lparr>ret_type_checking := None\<rparr>) = type_checking E"
proof -
  have "(\<lambda>s. case ret_type_checking E of
               None \<Rightarrow> (s, None)
             | Some optional_error \<Rightarrow>
                 (case type_checking_mode E of
                    Strict \<Rightarrow> (s, Some optional_error)
                  | Basic \<Rightarrow> (s\<lparr>trace := trace s @ [LoggerWarning optional_error]\<rparr>, None)
                  | OtherMode m \<Rightarrow> (s, None))) = (\<lambda>s::app. (s, None))"
    using assms
    by (intro ext) (simp split: option.split TypeCheckingMode.split)
  then show ?thesis
    by (simp add: type_checking_def call_report)
qed

lemma type_checking_events_no_warning:
  assumes "type_checking_mode E \<noteq> Basic"
  shows "type_checking_events E = [TypeChecking]"
  using assms
  by (cases "type_checking_mode E")
     (simp_all add: type_checking_events_def split: option.split)

text \<open>
  Claim C10. When the configured severity is neither \<open>Strict\<close> nor \<open>Basic\<close>, the
  report of the type checking service has no effect: the gate, and the whole run, do
  exactly what they do when the service reports nothing, and no warning is logged.
\<close>

theorem other_severity_gate_is_noop:
  assumes "type_checking_mode E \<noteq> Strict" and "type_checking_mode E \<noteq> Basic"
  shows "type_checking E s = type_checking (E\<lparr>ret_type_checking := None\<rparr>) s \<and>
         run E = run (E\<lparr>ret_type_checking := None\<rparr>) \<and>
         filter is_warning (trace (fst (run E))) = []"
proof (intro conjI)
  note tc = type_checking_other_mode [OF assms]
  show "type_checking E s = type_checking (E\<lparr>ret_type_checking := None\<rparr>) s"
    by (simp add: tc)
  have "init_app (E\<lparr>ret_type_checking := None\<rparr>) = init_app E"
    by (simp add: init_app_def scan_classes_for_project_report
        register_all_entities_from_providers_report register_app_entities_report
        register_entity_providers_report tc call_report init_providers_report
        handle_singleton_components_life_cycle_report)
  then have "try_block (E\<lparr>ret_type_checking := None\<rparr>) = try_block E"
    by (simp add: try_block_def configure_logging_report init_controllers_report
        run_server_report cong: if_cong)
  then show "run E = run (E\<lparr>ret_type_checking := None\<rparr>)"
    by (simp add: run_def handle_singleton_components_life_cycle_report)
  have "\<forall>e\<in>set (startup_script E). \<not> is_warning e"
    by (auto simp: type_checking_events_no_warning [OF assms(2)]
        dest!: in_startup_script in_wiring_script in_registration_script
        in_life_cycle_events_Init in_controller_events)
  then have "filter is_warning (trace (fst (try_block E init_app_state))) = []"
    using try_block_subset [of E] by (auto simp: filter_empty_conv)
  then show "filter is_warning (trace (fst (run E))) = []"
    by (simp add: filter_run)
qed

theorem other_severity_gate_is_noop_witness:
  "type_checking_mode other_env \<noteq> Strict \<and>
   type_checking_mode other_env \<noteq> Basic \<and>
   ret_type_checking other_env = Some ''type error'' \<and>
   run other_env = run (other_env\<lparr>ret_type_checking := None\<rparr>) \<and>
   filter is_warning (trace (fst (run other_env))) = [] \<and>
   snd (run other_env) = None"
proof -
  have h1: "type_checking_mode other_env \<noteq> Strict"
    by (simp add: other_env_def)
  have h2: "type_checking_mode other_env \<noteq> Basic"
    by (simp add: other_env_def)
  have h3: "ret_type_checking other_env = Some ''type error''"
    by (simp add: other_env_def demo_env_def)
  have h4: "snd (run other_env) = None"
    by (simp add: run_defs other_env_def demo_env_def)
  note r = other_severity_gate_is_noop [OF h1 h2, of init_app_state]
  show ?thesis
    by (intro conjI h1 h2 h3 h4 r [THEN conjunct2, THEN conjunct1]
        r [THEN conjunct2, THEN conjunct2])
qed

end
